theory Spec2Isabelle
  imports Complex_Main
begin

section \<open>QuickRead: tokenizer, ORP resolver, flash layout and playback control\<close>

text \<open>
  This theory embeds the playback engine of \<^verbatim>\<open>quickread.py\<close>: the functions
  \<^verbatim>\<open>tokenize_text\<close>, \<^verbatim>\<open>calculate_orp_index\<close>, \<^verbatim>\<open>find_orp_in_word\<close>, the label
  computations of \<^verbatim>\<open>ORPDisplayWidget\<close> and the reading-control methods of
  \<^verbatim>\<open>QuickReadApp\<close>.

  A Python \<^verbatim>\<open>str\<close> is modelled as a list of 8-bit characters, that is, of code
  points up to U+00FF; \<^verbatim>\<open>len\<close> counts code points, as \<open>length\<close> does here. Python
  integers are \<open>int\<close>, except for lengths and the indices produced by
  \<^verbatim>\<open>enumerate\<close>, which are \<open>nat\<close>.
\<close>

subsection \<open>Constants of the module\<close>

definition DEFAULT_WPM :: int where "DEFAULT_WPM = 300"
definition MIN_WPM :: int where "MIN_WPM = 100"
definition MAX_WPM :: int where "MAX_WPM = 1000"
definition WPM_STEP :: int where "WPM_STEP = 25"
definition DEFAULT_WORDS_PER_FLASH :: int where "DEFAULT_WORDS_PER_FLASH = 1"
definition MAX_WORDS_PER_FLASH :: int where "MAX_WORDS_PER_FLASH = 5"
definition REWIND_WORDS :: int where "REWIND_WORDS = 10"
definition FORWARD_WORDS :: int where "FORWARD_WORDS = 10"

subsection \<open>Character classes and string primitives of Python\<close>

text \<open>
  \<^verbatim>\<open>str.isspace\<close>, and with it \<^verbatim>\<open>str.strip()\<close>, \<^verbatim>\<open>str.split()\<close> and the regular
  expression class \<^verbatim>\<open>\s\<close>, hold of these code points below 256: TAB, LF, VT, FF, CR,
  the separators FS, GS, RS, US, the space, NEL (U+0085) and the no-break space (U+00A0).
\<close>

definition is_space :: "char \<Rightarrow> bool" where
  "is_space c = (of_char c \<in> {9, 10, 11, 12, 13, 28, 29, 30, 31, 32, 133, 160 :: nat})"

text \<open>
  The regular expression class \<^verbatim>\<open>\w\<close> on a \<^verbatim>\<open>str\<close> pattern: the underscore and
  every alphanumeric code point; below 256 these are the ASCII digits and letters and
  the Latin-1 letters, superscript digits and fractions.
\<close>

definition is_word :: "char \<Rightarrow> bool" where
  "is_word c = (let n = (of_char c :: nat) in
     (48 \<le> n \<and> n \<le> 57) \<or> (65 \<le> n \<and> n \<le> 90) \<or> n = 95 \<or> (97 \<le> n \<and> n \<le> 122) \<or>
     n \<in> {170, 178, 179, 181, 185, 186, 188, 189, 190} \<or>
     (192 \<le> n \<and> n \<le> 214) \<or> (216 \<le> n \<and> n \<le> 246) \<or> (248 \<le> n \<and> n \<le> 255))"

text \<open>\<^verbatim>\<open>s.strip()\<close>: whitespace removed at both ends.\<close>

definition py_strip :: "string \<Rightarrow> string" where
  "py_strip s = rev (dropWhile is_space (rev (dropWhile is_space s)))"

text \<open>
  \<^verbatim>\<open>re.sub(r'\s+', ' ', s)\<close>: every maximal run of whitespace is replaced by one
  space character.
\<close>

function re_sub_spaces :: "string \<Rightarrow> string" where
  "re_sub_spaces [] = []"
| "re_sub_spaces (c # cs) =
     (if is_space c then CHR '' '' # re_sub_spaces (dropWhile is_space cs)
      else c # re_sub_spaces cs)"
  by pat_completeness auto
termination
  by (relation "measure length") (auto simp: length_dropWhile_le less_Suc_eq_le)

text \<open>
  \<^verbatim>\<open>s.split()\<close> without argument: the maximal runs of non-whitespace characters,
  in order; no empty string is produced.
\<close>

function py_split :: "string \<Rightarrow> string list" where
  "py_split s =
     (case dropWhile is_space s of
        [] \<Rightarrow> []
      | c # cs \<Rightarrow> (c # takeWhile (\<lambda>x. \<not> is_space x) cs) # py_split (dropWhile (\<lambda>x. \<not> is_space x) cs))"
  by pat_completeness auto
termination
proof (relation "measure length", goal_cases)
  case 1
  show ?case by simp
next
  case (2 s c cs)
  have "length (dropWhile (\<lambda>x. \<not> is_space x) cs) \<le> length cs"
    by (rule length_dropWhile_le)
  moreover have "length (dropWhile is_space s) \<le> length s"
    by (rule length_dropWhile_le)
  ultimately show ?case using 2 by simp
qed

declare py_split.simps [simp del]

text \<open>\<^verbatim>\<open>" ".join(ws)\<close>.\<close>

fun join_space :: "string list \<Rightarrow> string" where
  "join_space [] = []"
| "join_space [w] = w"
| "join_space (w # v # ws) = w @ CHR '' '' # join_space (v # ws)"

text \<open>
  \<^verbatim>\<open>re.search(r'[...]$', word)\<close> for a character class: without the MULTILINE flag
  \<^verbatim>\<open>$\<close> matches at the end of the string and also just before a line feed that ends
  the string.
\<close>

definition re_search_end :: "char set \<Rightarrow> string \<Rightarrow> bool" where
  "re_search_end cls w =
     (w \<noteq> [] \<and>
      (last w \<in> cls \<or>
       (last w = CHR 0x0A \<and> butlast w \<noteq> [] \<and> last (butlast w) \<in> cls)))"

subsection \<open>Floating point numbers of Python\<close>

text \<open>
  A finite \<^verbatim>\<open>float\<close> is an IEEE 754 binary64 number, here the rational it denotes.
  \<open>to_double\<close> rounds a rational to the nearest such number, ties to the even
  significand, with the gradual underflow of the format; every arithmetic operation
  of Python returns the rounded exact result. All quantities of this program are
  far below the overflow threshold \<open>2 ^ 1024\<close>.
\<close>

type_synonym pyfloat = rat

text \<open>\<^verbatim>\<open>n.bit_length()\<close> of a positive integer.\<close>

function bit_length :: "int \<Rightarrow> nat" where
  "bit_length n = (if n \<le> 0 then 0 else Suc (bit_length (n div 2)))"
  by pat_completeness auto
termination
  by (relation "measure nat") auto

declare bit_length.simps [simp del]

definition ilog2 :: "rat \<Rightarrow> int" where
  \<comment> \<open>\<open>\<lfloor>log\<^sub>2 x\<rfloor>\<close> for \<open>0 < x\<close>\<close>
  "ilog2 x = (let (a, b) = quotient_of x;
                  e = int (bit_length a) - int (bit_length b)
              in if 2 powi e \<le> x then e else e - 1)"

definition round_half_even :: "rat \<Rightarrow> int" where
  "round_half_even x = (let f = \<lfloor>x\<rfloor>; r = x - of_int f in
     if r < 1 / 2 then f else if 1 / 2 < r then f + 1 else if even f then f else f + 1)"

definition to_double :: "rat \<Rightarrow> pyfloat" where
  "to_double x =
     (if x = 0 then 0
      else let e = max (ilog2 \<bar>x\<bar> - 52) (- 1074)
           in of_int (round_half_even (x / 2 powi e)) * 2 powi e)"

definition float_mul :: "pyfloat \<Rightarrow> pyfloat \<Rightarrow> pyfloat" where
  "float_mul x y = to_double (x * y)"

text \<open>\<^verbatim>\<open>a / b\<close> on two integers with \<open>b \<noteq> 0\<close>: the correctly rounded quotient.\<close>

definition int_true_div :: "int \<Rightarrow> int \<Rightarrow> pyfloat" where
  "int_true_div a b = to_double (of_int a / of_int b)"

text \<open>\<^verbatim>\<open>int(x)\<close> on a float: truncation towards zero.\<close>

definition py_int :: "pyfloat \<Rightarrow> int" where
  "py_int x = (if 0 \<le> x then \<lfloor>x\<rfloor> else \<lceil>x\<rceil>)"

definition COMMA_DELAY_MULTIPLIER :: pyfloat where
  "COMMA_DELAY_MULTIPLIER = to_double (15 / 10)"
definition PERIOD_DELAY_MULTIPLIER :: pyfloat where
  "PERIOD_DELAY_MULTIPLIER = to_double (20 / 10)"
definition MULTI_WORD_DELAY_MULTIPLIER :: pyfloat where
  "MULTI_WORD_DELAY_MULTIPLIER = to_double (12 / 10)"

subsection \<open>Tokenizer\<close>

record token =
  word :: string
  delay_multiplier :: pyfloat

text \<open>The body of the loop over \<^verbatim>\<open>raw_words\<close>, appending to \<^verbatim>\<open>tokens\<close>.\<close>

fun tokenize_loop :: "string list \<Rightarrow> token list" where
  "tokenize_loop [] = []"
| "tokenize_loop (w # raw_words) =
     (if w = [] then tokenize_loop raw_words
      else
        let m = (if re_search_end {CHR ''.'', CHR ''!'', CHR ''?''} w then PERIOD_DELAY_MULTIPLIER
                 else if re_search_end {CHR '','', CHR '';'', CHR '':''} w then COMMA_DELAY_MULTIPLIER
                 else 1);
            clean_word = py_strip w
        in if clean_word \<noteq> []
           then \<lparr>word = clean_word, delay_multiplier = m\<rparr> # tokenize_loop raw_words
           else tokenize_loop raw_words)"

definition tokenize_text :: "string \<Rightarrow> token list" where
  "tokenize_text text =
     (let text' = re_sub_spaces (py_strip text)
      in if text' = [] then [] else tokenize_loop (py_split text'))"

subsection \<open>ORP resolver\<close>

text \<open>\<^verbatim>\<open>re.sub(r'[^\w]', '', word)\<close> keeps the word characters.\<close>

definition letters_only :: "string \<Rightarrow> string" where
  "letters_only w = filter is_word w"

definition calculate_orp_index :: "string \<Rightarrow> nat" where
  "calculate_orp_index w =
     (let n = length (letters_only w) in
      if n \<le> 1 then 0
      else if n \<le> 5 then 1
      else if n \<le> 9 then 2
      else if n \<le> 13 then 3
      else n div 4)"

text \<open>
  The loop of \<^verbatim>\<open>find_orp_in_word\<close> over \<^verbatim>\<open>enumerate(word)\<close>: \<open>i\<close> is the index of
  the character at hand, \<open>letter_count\<close> the number of word characters before it; the
  fallback after the loop is 0.
\<close>

fun orp_loop :: "nat \<Rightarrow> nat \<Rightarrow> nat \<Rightarrow> string \<Rightarrow> nat" where
  "orp_loop orp_letter_index i letter_count [] = 0"
| "orp_loop orp_letter_index i letter_count (c # cs) =
     (if is_word c
      then (if letter_count = orp_letter_index then i
            else orp_loop orp_letter_index (Suc i) (Suc letter_count) cs)
      else orp_loop orp_letter_index (Suc i) letter_count cs)"

definition find_orp_in_word :: "string \<Rightarrow> nat" where
  "find_orp_in_word w = orp_loop (calculate_orp_index w) 0 0 w"

subsection \<open>The ORP display widget\<close>

text \<open>
  The widget shows three labels. The texts set by \<^verbatim>\<open>display_word\<close>,
  \<^verbatim>\<open>display_phrase\<close>, \<^verbatim>\<open>display_message\<close> and \<^verbatim>\<open>clear\<close> are modelled; each of them
  overwrites all three labels. The only message ever displayed is the completion
  message, whose check mark lies outside the modelled character range, so it is a
  constructor of its own.
\<close>

datatype label_text = Chars string | Done_message

record orp_display =
  left_label :: string
  orp_label :: label_text
  right_label :: string

definition clear :: orp_display where
  "clear = \<lparr>left_label = [], orp_label = Chars [], right_label = []\<rparr>"

definition display_message_done :: orp_display where
  "display_message_done = \<lparr>left_label = [], orp_label = Done_message, right_label = []\<rparr>"

definition display_word :: "string \<Rightarrow> orp_display" where
  "display_word w =
     (if w = [] then clear
      else
        let orp_index = find_orp_in_word w;
            left_part = (if orp_index > 0 then take orp_index w else []);
            orp_char = (if orp_index < length w then [w ! orp_index] else []);
            right_part = (if orp_index + 1 < length w then drop (orp_index + 1) w else [])
        in \<lparr>left_label = left_part, orp_label = Chars orp_char, right_label = right_part\<rparr>)"

definition display_phrase :: "string list \<Rightarrow> orp_display" where
  "display_phrase ws =
     (if ws = [] then clear
      else if length ws = 1 then display_word (ws ! 0)
      else
        let middle_idx = length ws div 2;
            middle_word = ws ! middle_idx;
            orp_index = find_orp_in_word middle_word;
            left_words = take middle_idx ws;
            left_part_middle = (if orp_index > 0 then take orp_index middle_word else []);
            left_text = join_space left_words;
            left_text = (if left_text \<noteq> [] \<and> left_part_middle \<noteq> []
                         then left_text @ CHR '' '' # left_part_middle
                         else if left_part_middle \<noteq> [] then left_part_middle
                         else left_text);
            orp_char = (if orp_index < length middle_word then [middle_word ! orp_index] else []);
            right_part_middle = (if orp_index + 1 < length middle_word
                                 then drop (orp_index + 1) middle_word else []);
            right_words = drop (middle_idx + 1) ws;
            right_text = right_part_middle;
            right_text = (if right_text \<noteq> [] \<and> right_words \<noteq> []
                          then right_text @ CHR '' '' # join_space right_words
                          else if right_words \<noteq> [] then join_space right_words
                          else right_text)
        in \<lparr>left_label = left_text, orp_label = Chars orp_char, right_label = right_text\<rparr>)"

subsection \<open>The application state and its reading control\<close>

text \<open>
  The fields of \<^verbatim>\<open>QuickReadApp\<close> that the reading control reads or writes. \<open>timer\<close>
  is the \<^verbatim>\<open>QTimer\<close>: \<open>None\<close> when stopped, \<open>Some ms\<close> when running with interval
  \<open>ms\<close>; its timeout signal calls \<^verbatim>\<open>display_next_word\<close>. \<open>progress_bar\<close> is the value
  of the \<^verbatim>\<open>QProgressBar\<close>, whose range is 0 to 100. The texts of the status, time and
  speed labels and of the buttons are not modelled, but the arithmetic that computes
  them is, where it can raise.
\<close>

datatype py_error = ZeroDivisionError | ValueError

record app =
  tokens :: "token list"
  current_index :: int
  is_playing :: bool
  is_paused :: bool
  wpm :: int
  words_per_flash :: int
  is_fullscreen :: bool
  timer :: "int option"
  orp_display :: orp_display
  progress_bar :: int

definition init_app :: app where
  "init_app = \<lparr>tokens = [], current_index = 0, is_playing = False, is_paused = False,
     wpm = DEFAULT_WPM, words_per_flash = DEFAULT_WORDS_PER_FLASH, is_fullscreen = False,
     timer = None, orp_display = clear, progress_bar = 0\<rparr>"

text \<open>
  \<^verbatim>\<open>xs[a:b]\<close> with Python's treatment of negative and oversized bounds.
\<close>

definition py_slice :: "'a list \<Rightarrow> int \<Rightarrow> int \<Rightarrow> 'a list" where
  "py_slice xs a b =
     (let n = int (length xs);
          a' = (if a < 0 then max 0 (a + n) else min a n);
          b' = (if b < 0 then max 0 (b + n) else min b n)
      in take (nat (b' - a')) (drop (nat a') xs))"

text \<open>\<^verbatim>\<open>max(...)\<close> over a sequence raises \<^verbatim>\<open>ValueError\<close> when it is empty.\<close>

definition py_max :: "pyfloat list \<Rightarrow> py_error + pyfloat" where
  "py_max xs = (case xs of [] \<Rightarrow> Inl ValueError | x # ys \<Rightarrow> Inr (foldl max x ys))"

text \<open>
  \<^verbatim>\<open>QProgressBar.setValue\<close> ignores a value outside the range of the bar.
\<close>

definition progress_bar_setValue :: "int \<Rightarrow> app \<Rightarrow> app" where
  "progress_bar_setValue v s = (if 0 \<le> v \<and> v \<le> 100 then s\<lparr>progress_bar := v\<rparr> else s)"

definition update_progress :: "app \<Rightarrow> app" where
  "update_progress s =
     (if tokens s = [] then s
      else
        let progress = float_mul (int_true_div (current_index s) (int (length (tokens s)))) 100
        in progress_bar_setValue (py_int progress) s)"

text \<open>
  \<^verbatim>\<open>update_time_estimate\<close> only writes labels; it divides by \<^verbatim>\<open>words_per_flash\<close> and
  by \<^verbatim>\<open>wpm\<close>, in this order.
\<close>

definition update_time_estimate :: "app \<Rightarrow> py_error + app" where
  "update_time_estimate s =
     (if tokens s = [] then Inr s
      else if words_per_flash s = 0 then Inl ZeroDivisionError
      else if wpm s = 0 then Inl ZeroDivisionError
      else Inr s)"

definition flash_display :: "string list \<Rightarrow> orp_display" where
  \<comment> \<open>the branch shared by \<^verbatim>\<open>show_current_word\<close> and \<^verbatim>\<open>display_next_word\<close>\<close>
  "flash_display ws = (if length ws = 1 then display_word (ws ! 0) else display_phrase ws)"

definition show_current_word :: "app \<Rightarrow> app" where
  "show_current_word s =
     (if current_index s \<ge> int (length (tokens s)) then s
      else
        let end_index = min (current_index s + words_per_flash s) (int (length (tokens s)));
            flash_tokens = py_slice (tokens s) (current_index s) end_index;
            ws = map word flash_tokens
        in s\<lparr>orp_display := flash_display ws\<rparr>)"

definition display_next_word :: "app \<Rightarrow> py_error + app" where
  "display_next_word s =
     (if current_index s \<ge> int (length (tokens s))
      then Inr (progress_bar_setValue 100
                  (s\<lparr>timer := None, is_playing := False, orp_display := display_message_done\<rparr>))
      else
        let end_index = min (current_index s + words_per_flash s) (int (length (tokens s)));
            flash_tokens = py_slice (tokens s) (current_index s) end_index;
            ws = map word flash_tokens
        in case py_max (map delay_multiplier flash_tokens) of
             Inl e \<Rightarrow> Inl e
           | Inr max_delay_multiplier \<Rightarrow>
               (case update_time_estimate
                       (update_progress
                          (s\<lparr>orp_display := flash_display ws, current_index := end_index\<rparr>)) of
                  Inl e \<Rightarrow> Inl e
                | Inr s' \<Rightarrow>
                    let base_delay = int_true_div 60000 (wpm s');
                        delay = float_mul base_delay max_delay_multiplier;
                        delay = (if words_per_flash s' > 1
                                 then float_mul delay MULTI_WORD_DELAY_MULTIPLIER else delay)
                    in Inr (s'\<lparr>timer := Some (py_int delay)\<rparr>)))"

definition resume_reading :: "app \<Rightarrow> py_error + app" where
  "resume_reading s =
     display_next_word
       (s\<lparr>current_index := (if current_index s \<ge> int (length (tokens s)) then 0
                             else current_index s),
          is_playing := True, is_paused := False\<rparr>)"

definition pause_reading :: "app \<Rightarrow> app" where
  "pause_reading s = s\<lparr>timer := None, is_playing := False, is_paused := True\<rparr>"

definition stop_reading :: "app \<Rightarrow> app" where
  "stop_reading s =
     progress_bar_setValue 0
       (s\<lparr>timer := None, is_playing := False, is_paused := False, current_index := 0,
          orp_display := clear\<rparr>)"

definition toggle_play_pause :: "app \<Rightarrow> py_error + app" where
  "toggle_play_pause s =
     (if tokens s = [] then Inr s
      else if is_playing s then Inr (pause_reading s)
      else resume_reading s)"

definition rewind :: "app \<Rightarrow> py_error + app" where
  "rewind s =
     (if tokens s = [] then Inr s
      else
        let rewind_amount = max REWIND_WORDS (int (length (tokens s)) div 20);
            rewind_amount = rewind_amount * words_per_flash s;
            s1 = update_progress (s\<lparr>current_index := max 0 (current_index s - rewind_amount)\<rparr>)
        in case update_time_estimate s1 of
             Inl e \<Rightarrow> Inl e
           | Inr s2 \<Rightarrow>
               if is_playing s2 then display_next_word (s2\<lparr>timer := None\<rparr>)
               else Inr (show_current_word s2))"

definition forward :: "app \<Rightarrow> py_error + app" where
  "forward s =
     (if tokens s = [] then Inr s
      else
        let forward_amount = max FORWARD_WORDS (int (length (tokens s)) div 20);
            forward_amount = forward_amount * words_per_flash s;
            s1 = update_progress
                   (s\<lparr>current_index :=
                        min (int (length (tokens s)) - 1) (current_index s + forward_amount)\<rparr>)
        in case update_time_estimate s1 of
             Inl e \<Rightarrow> Inl e
           | Inr s2 \<Rightarrow>
               if is_playing s2 then display_next_word (s2\<lparr>timer := None\<rparr>)
               else Inr (show_current_word s2))"

text \<open>
  \<^verbatim>\<open>start_reading\<close> reads the text of the input box, here its argument. The two
  warnings are message boxes; the result carries the one shown, if any.
\<close>

datatype warning = No_Text | No_Words

definition start_reading :: "string \<Rightarrow> app \<Rightarrow> py_error + (warning option \<times> app)" where
  "start_reading text s =
     (let text' = py_strip text in
      if text' = [] then Inr (Some No_Text, s)
      else
        let s1 = s\<lparr>tokens := tokenize_text text'\<rparr> in
        if tokens s1 = [] then Inr (Some No_Words, s1)
        else
          let s2 = progress_bar_setValue 0
                     (s1\<lparr>current_index := 0, is_playing := False, is_paused := False\<rparr>);
              s3 = s2\<lparr>orp_display := clear\<rparr>
          in case update_time_estimate s3 of
               Inl e \<Rightarrow> Inl e
             | Inr s4 \<Rightarrow>
                 (case toggle_play_pause s4 of
                    Inl e \<Rightarrow> Inl e
                  | Inr s5 \<Rightarrow> Inr (None, s5)))"

text \<open>
  The speed and batch-width handlers. The two sliders hold the value of \<^verbatim>\<open>wpm\<close>, so
  the \<^verbatim>\<open>setValue\<close> calls of these handlers change nothing further; the estimate of
  the input view is not modelled.
\<close>

definition on_wpm_changed :: "int \<Rightarrow> app \<Rightarrow> app" where
  "on_wpm_changed v s = s\<lparr>wpm := v\<rparr>"

definition on_reading_wpm_changed :: "int \<Rightarrow> app \<Rightarrow> py_error + app" where
  "on_reading_wpm_changed v s = update_time_estimate (s\<lparr>wpm := v\<rparr>)"

definition increase_wpm :: "app \<Rightarrow> app" where
  "increase_wpm s = (let new_wpm = min (wpm s + WPM_STEP) MAX_WPM in s\<lparr>wpm := new_wpm\<rparr>)"

definition decrease_wpm :: "app \<Rightarrow> app" where
  "decrease_wpm s = (let new_wpm = max (wpm s - WPM_STEP) MIN_WPM in s\<lparr>wpm := new_wpm\<rparr>)"

definition on_wpf_changed :: "int \<Rightarrow> app \<Rightarrow> app" where
  \<comment> \<open>the argument is \<^verbatim>\<open>wpf_combo.currentData()\<close>\<close>
  "on_wpf_changed n s = s\<lparr>words_per_flash := n\<rparr>"

definition toggle_fullscreen :: "app \<Rightarrow> app" where
  "toggle_fullscreen s = s\<lparr>is_fullscreen := \<not> is_fullscreen s\<rparr>"

definition on_escape :: "app \<Rightarrow> app" where
  "on_escape s =
     (if is_fullscreen s then toggle_fullscreen s
      else if is_playing s then pause_reading s
      else s)"

definition show_input_view :: "app \<Rightarrow> app" where
  "show_input_view s =
     (let s1 = stop_reading s in if is_fullscreen s1 then toggle_fullscreen s1 else s1)"

subsection \<open>Events and reachable states\<close>

text \<open>
  The user interface calls the handlers above through these events. A slider sends
  a value of its range \<open>MIN_WPM .. MAX_WPM\<close>, the combo box the data of one of its items
  \<open>1 .. MAX_WORDS_PER_FLASH\<close>, and the timer fires only while it runs.
\<close>

datatype event =
    Start string | Toggle | Stop | Rewind | Forward | Tick | Escape | Back | Fullscreen
  | Wpm_slider int | Reading_wpm_slider int | Increase_wpm | Decrease_wpm | Wpf_combo int

fun enabled :: "event \<Rightarrow> app \<Rightarrow> bool" where
  "enabled Tick s = (timer s \<noteq> None)"
| "enabled (Wpm_slider v) s = (MIN_WPM \<le> v \<and> v \<le> MAX_WPM)"
| "enabled (Reading_wpm_slider v) s = (MIN_WPM \<le> v \<and> v \<le> MAX_WPM)"
| "enabled (Wpf_combo n) s = (1 \<le> n \<and> n \<le> MAX_WORDS_PER_FLASH)"
| "enabled _ s = True"

fun handle :: "event \<Rightarrow> app \<Rightarrow> py_error + app" where
  "handle (Start text) s = map_sum id snd (start_reading text s)"
| "handle Toggle s = toggle_play_pause s"
| "handle Stop s = Inr (stop_reading s)"
| "handle Rewind s = rewind s"
| "handle Forward s = forward s"
| "handle Tick s = display_next_word s"
| "handle Escape s = Inr (on_escape s)"
| "handle Back s = Inr (show_input_view s)"
| "handle Fullscreen s = Inr (toggle_fullscreen s)"
| "handle (Wpm_slider v) s = Inr (on_wpm_changed v s)"
| "handle (Reading_wpm_slider v) s = on_reading_wpm_changed v s"
| "handle Increase_wpm s = Inr (increase_wpm s)"
| "handle Decrease_wpm s = Inr (decrease_wpm s)"
| "handle (Wpf_combo n) s = Inr (on_wpf_changed n s)"

inductive reachable :: "app \<Rightarrow> bool" where
  reachable_init: "reachable init_app"
| reachable_step: "reachable s \<Longrightarrow> enabled e s \<Longrightarrow> handle e s = Inr s' \<Longrightarrow> reachable s'"

subsection \<open>Definitions used in the statements\<close>

text \<open>\<^verbatim>\<open>s.rstrip()\<close>: whitespace removed at the end.\<close>

definition py_rstrip :: "string \<Rightarrow> string" where
  "py_rstrip s = rev (dropWhile is_space (rev s))"

text \<open>
  The whitespace-normalized text in the order of the specification: every run of
  whitespace collapsed to one space, then the ends trimmed. (\<^verbatim>\<open>tokenize_text\<close> trims
  first and collapses afterwards.)
\<close>

definition normalize_whitespace :: "string \<Rightarrow> string" where
  "normalize_whitespace s = py_strip (re_sub_spaces s)"

text \<open>
  The rank table of the specification: the 0-based rank, among the word characters, of
  the fixation character of a text with \<open>n\<close> word characters.
\<close>

definition orp_rank :: "nat \<Rightarrow> nat" where
  "orp_rank n = (if n \<le> 1 then 0 else if 2 \<le> n \<and> n \<le> 5 then 1 else if 6 \<le> n \<and> n \<le> 9 then 2
                 else if 10 \<le> n \<and> n \<le> 13 then 3 else n div 4)"

text \<open>
  The pacing rule of the specification, read off the last character of a unit: the
  sentence-end class first, then the clause class.
\<close>

definition pacing_multiplier :: "string \<Rightarrow> pyfloat" where
  "pacing_multiplier w =
     (if last w \<in> {CHR ''.'', CHR ''!'', CHR ''?''} then 2
      else if last w \<in> {CHR '','', CHR '';'', CHR '':''} then 3 / 2
      else 1)"

definition make_token :: "string \<Rightarrow> token" where
  "make_token w = \<lparr>word = w, delay_multiplier = pacing_multiplier w\<rparr>"

text \<open>
  The layout of the specification. Words joined by single spaces: every word gets a
  space in front and the first of these spaces is dropped. Two parts put together with
  a separating space only when neither is empty.
\<close>

definition words_joined :: "string list \<Rightarrow> string" where
  "words_joined ws = drop 1 (concat (map (\<lambda>w. CHR '' '' # w) ws))"

definition join_parts :: "string \<Rightarrow> string \<Rightarrow> string" where
  "join_parts a b = (if a \<noteq> [] \<and> b \<noteq> [] then a @ CHR '' '' # b else a @ b)"

text \<open>
  The tokens of the flash at the current position, as \<^verbatim>\<open>display_next_word\<close> and
  \<^verbatim>\<open>show_current_word\<close> slice them, and the delay that \<^verbatim>\<open>display_next_word\<close> computes
  from the speed \<open>w\<close>, the batch width \<open>k\<close> and the largest multiplier \<open>m\<close> of the flash.
\<close>

definition flash_tokens_at :: "app \<Rightarrow> token list" where
  "flash_tokens_at s =
     py_slice (tokens s) (current_index s)
       (min (current_index s + words_per_flash s) (int (length (tokens s))))"

definition flash_delay :: "int \<Rightarrow> int \<Rightarrow> pyfloat \<Rightarrow> pyfloat" where
  "flash_delay w k m =
     (let delay = float_mul (int_true_div 60000 w) m
      in if k > 1 then float_mul delay MULTI_WORD_DELAY_MULTIPLIER else delay)"

text \<open>
  A sequence of events, each handled when it is enabled and dropped otherwise; \<open>after\<close>
  is the state that the sequence leaves when started in the initial state.
\<close>

fun run :: "event list \<Rightarrow> app \<Rightarrow> py_error + app" where
  "run [] s = Inr s"
| "run (e # es) s =
     (if enabled e s then (case handle e s of Inl x \<Rightarrow> Inl x | Inr s' \<Rightarrow> run es s') else run es s)"

definition after :: "event list \<Rightarrow> app" where
  "after es = (case run es init_app of Inl x \<Rightarrow> init_app | Inr s \<Rightarrow> s)"

text \<open>
  The invariant of the specification on the position, the speed and the batch width.
\<close>

definition state_ok :: "app \<Rightarrow> bool" where
  "state_ok s \<longleftrightarrow>
     0 \<le> current_index s \<and> current_index s \<le> int (length (tokens s)) \<and>
     MIN_WPM \<le> wpm s \<and> wpm s \<le> MAX_WPM \<and>
     1 \<le> words_per_flash s \<and> words_per_flash s \<le> MAX_WORDS_PER_FLASH"

section \<open>Properties\<close>

subsection \<open>Whitespace, splitting and joining\<close>

lemma is_space_blank [simp]: "is_space CHR '' ''"
  by (simp add: is_space_def)

lemma is_space_LF [simp]: "is_space CHR 0x0A"
  by (simp add: is_space_def)

lemma dropWhile_all: "\<forall>x\<in>set s. P x \<Longrightarrow> dropWhile P s = []"
  by simp

lemma py_strip_rstrip: "py_strip s = py_rstrip (dropWhile is_space s)"
  by (simp add: py_strip_def py_rstrip_def)

lemma py_rstrip_Nil [simp]: "py_rstrip [] = []"
  by (simp add: py_rstrip_def)

lemma py_rstrip_Cons:
  "py_rstrip (a # x) = (if is_space a \<and> (\<forall>y\<in>set x. is_space y) then [] else a # py_rstrip x)"
  by (auto simp: py_rstrip_def dropWhile_append)

lemma py_rstrip_all_space: "\<forall>y\<in>set x. is_space y \<Longrightarrow> py_rstrip x = []"
  by (simp add: py_rstrip_def)

lemma py_rstrip_lstrip:
  "dropWhile is_space (py_rstrip x) = py_rstrip (dropWhile is_space x)"
proof (induction x)
  case Nil
  show ?case by simp
next
  case (Cons a x)
  show ?case
  proof (cases "is_space a")
    case False
    then show ?thesis by (simp add: py_rstrip_Cons)
  next
    case True
    show ?thesis
    proof (cases "\<forall>y\<in>set x. is_space y")
      case True
      with \<open>is_space a\<close> show ?thesis
        by (simp add: py_rstrip_Cons dropWhile_all)
    next
      case False
      with \<open>is_space a\<close> Cons.IH show ?thesis
        by (auto simp: py_rstrip_Cons)
    qed
  qed
qed

lemma py_rstrip_word_append:
  "\<forall>x\<in>set w. \<not> is_space x \<Longrightarrow>
   py_rstrip (w @ r) = (if \<forall>y\<in>set r. is_space y then w else w @ py_rstrip r)"
  by (induction w) (auto simp: py_rstrip_Cons py_rstrip_all_space)

lemma re_sub_spaces_no_space:
  "\<forall>x\<in>set w. \<not> is_space x \<Longrightarrow> re_sub_spaces (w @ r) = w @ re_sub_spaces r"
  by (induction w) auto

lemma dropWhile_not_space_hd:
  "dropWhile (\<lambda>x. \<not> is_space x) cs = a # r \<Longrightarrow> is_space a"
  using hd_dropWhile [of "\<lambda>x. \<not> is_space x" cs] by auto

lemma dropWhile_space_hd:
  "dropWhile is_space cs = a # r \<Longrightarrow> \<not> is_space a"
  using hd_dropWhile [of is_space cs] by auto

text \<open>one step of the split: the first word and the rest\<close>

lemma py_split_Nil: "dropWhile is_space s = [] \<Longrightarrow> py_split s = []"
  by (subst py_split.simps) (simp add: dropWhile_all)

lemma py_split_Cons:
  "dropWhile is_space s = c # cs \<Longrightarrow>
   py_split s = (c # takeWhile (\<lambda>x. \<not> is_space x) cs) # py_split (dropWhile (\<lambda>x. \<not> is_space x) cs)"
  by (subst py_split.simps) simp

lemma py_split_eq_Nil: "py_split s = [] \<longleftrightarrow> (\<forall>x\<in>set s. is_space x)"
proof (cases "dropWhile is_space s")
  case Nil
  then show ?thesis by (simp add: py_split_Nil)
next
  case (Cons c cs)
  then have "\<not> (\<forall>x\<in>set s. is_space x)"
    using dropWhile_eq_Nil_conv [of is_space s] by simp
  then show ?thesis using Cons by (simp add: py_split_Cons)
qed

lemma join_space_Cons:
  "join_space (w # ws) = (if ws = [] then w else w @ CHR '' '' # join_space ws)"
  by (cases ws) simp_all

lemma join_split_code: "join_space (py_split s) = re_sub_spaces (py_strip s)"
proof (induction s rule: py_split.induct)
  case (1 s)
  show ?case
  proof (cases "dropWhile is_space s")
    case Nil
    then show ?thesis by (simp add: py_split_Nil py_strip_rstrip dropWhile_all)
  next
    case (Cons c cs)
    define w where "w = c # takeWhile (\<lambda>x. \<not> is_space x) cs"
    define r where "r = dropWhile (\<lambda>x. \<not> is_space x) cs"
    have nsp: "\<not> is_space c" using Cons by (rule dropWhile_space_hd)
    have w: "\<forall>x\<in>set w. \<not> is_space x"
      using nsp by (auto simp: w_def dest: set_takeWhileD)
    have wr: "dropWhile is_space s = w @ r" by (simp add: Cons w_def r_def)
    have split: "py_split s = w # py_split r"
      using Cons by (simp add: py_split_Cons w_def r_def)
    have IH: "join_space (py_split r) = re_sub_spaces (py_strip r)"
      using "1.IH" [OF Cons] by (simp add: r_def)
    show ?thesis
    proof (cases "\<forall>x\<in>set r. is_space x")
      case True
      then have "py_split r = []" by (simp add: py_split_eq_Nil)
      moreover have "py_strip s = w"
        using True w by (simp add: py_strip_rstrip wr py_rstrip_word_append)
      moreover have "re_sub_spaces w = w"
        using re_sub_spaces_no_space [OF w, of "[]"] by simp
      ultimately show ?thesis by (simp add: split)
    next
      case False
      then have ne: "py_split r \<noteq> []" by (simp add: py_split_eq_Nil)
      from False obtain a r' where r: "r = a # r'" by (cases r) auto
      have a: "is_space a" using r unfolding r_def by (rule dropWhile_not_space_hd)
      have r': "\<not> (\<forall>x\<in>set r'. is_space x)" using False a by (simp add: r)
      have "py_strip s = w @ py_rstrip r"
        using False w by (auto simp: py_strip_rstrip wr py_rstrip_word_append)
      also have "py_rstrip r = a # py_rstrip r'"
        using r' by (simp add: r py_rstrip_Cons)
      finally have "re_sub_spaces (py_strip s) =
          w @ CHR '' '' # re_sub_spaces (dropWhile is_space (py_rstrip r'))"
        using a by (simp add: re_sub_spaces_no_space [OF w])
      also have "dropWhile is_space (py_rstrip r') = py_strip r"
        using a by (simp add: py_rstrip_lstrip py_strip_rstrip r)
      finally show ?thesis using ne by (simp add: split join_space_Cons IH)
    qed
  qed
qed


lemma re_sub_spaces_lstrip:
  "py_strip (re_sub_spaces s) = py_rstrip (re_sub_spaces (dropWhile is_space s))"
proof -
  have B: "dropWhile is_space (re_sub_spaces t) = re_sub_spaces t"
    if "t = [] \<or> \<not> is_space (hd t)" for t
    using that by (cases t) auto
  have hd: "dropWhile is_space u = [] \<or> \<not> is_space (hd (dropWhile is_space u))" for u
    using hd_dropWhile [of is_space u] by blast
  show ?thesis
  proof (cases s)
    case Nil
    then show ?thesis by (simp add: py_strip_rstrip)
  next
    case (Cons a s')
    show ?thesis
    proof (cases "is_space a")
      case True
      then show ?thesis
        using B [OF hd [of s']] by (simp add: Cons py_strip_rstrip)
    next
      case False
      then show ?thesis by (simp add: Cons py_strip_rstrip)
    qed
  qed
qed

lemma re_sub_spaces_all_space:
  "\<forall>x\<in>set r. is_space x \<Longrightarrow> \<forall>x\<in>set (re_sub_spaces r). is_space x"
  by (cases r) (auto simp: dropWhile_all)

lemma join_split_spec: "join_space (py_split s) = py_strip (re_sub_spaces s)"
proof (induction s rule: py_split.induct)
  case (1 s)
  show ?case
  proof (cases "dropWhile is_space s")
    case Nil
    then show ?thesis by (simp add: py_split_Nil re_sub_spaces_lstrip dropWhile_all)
  next
    case (Cons c cs)
    define w where "w = c # takeWhile (\<lambda>x. \<not> is_space x) cs"
    define r where "r = dropWhile (\<lambda>x. \<not> is_space x) cs"
    have nsp: "\<not> is_space c" using Cons by (rule dropWhile_space_hd)
    have w: "\<forall>x\<in>set w. \<not> is_space x"
      using nsp by (auto simp: w_def dest: set_takeWhileD)
    have wr: "dropWhile is_space s = w @ r" by (simp add: Cons w_def r_def)
    have split: "py_split s = w # py_split r"
      using Cons by (simp add: py_split_Cons w_def r_def)
    have IH: "join_space (py_split r) = py_strip (re_sub_spaces r)"
      using "1.IH" [OF Cons] by (simp add: r_def)
    have lhs: "py_strip (re_sub_spaces s) = py_rstrip (w @ re_sub_spaces r)"
      by (simp add: re_sub_spaces_lstrip wr re_sub_spaces_no_space [OF w])
    show ?thesis
    proof (cases "\<forall>x\<in>set r. is_space x")
      case True
      then have "py_split r = []" by (simp add: py_split_eq_Nil)
      moreover have "py_rstrip (w @ re_sub_spaces r) = w"
        using re_sub_spaces_all_space [OF True] w by (simp add: py_rstrip_word_append)
      ultimately show ?thesis by (simp add: split lhs)
    next
      case False
      then have ne: "py_split r \<noteq> []" by (simp add: py_split_eq_Nil)
      from False obtain a r' where r: "r = a # r'" by (cases r) auto
      have a: "is_space a" using r unfolding r_def by (rule dropWhile_not_space_hd)
      define t where "t = dropWhile is_space r'"
      have "\<not> (\<forall>x\<in>set r'. is_space x)" using False a by (simp add: r)
      then obtain d ds where t: "t = d # ds"
        unfolding t_def using dropWhile_eq_Nil_conv [of is_space r'] by (cases "dropWhile is_space r'") auto
      have d: "\<not> is_space d" using t unfolding t_def by (rule dropWhile_space_hd)
      have Y: "re_sub_spaces r = CHR '' '' # re_sub_spaces t"
        using a by (simp add: r t_def)
      have nall: "\<not> (\<forall>x\<in>set (re_sub_spaces t). is_space x)"
        using d by (simp add: t)
      have "py_rstrip (w @ re_sub_spaces r) = w @ py_rstrip (re_sub_spaces r)"
        using w nall by (auto simp: py_rstrip_word_append Y)
      also have "py_rstrip (re_sub_spaces r) = CHR '' '' # py_rstrip (re_sub_spaces t)"
        using nall by (auto simp: Y py_rstrip_Cons)
      also have "py_rstrip (re_sub_spaces t) = py_strip (re_sub_spaces r)"
      proof -
        have "dropWhile is_space r = t" using a by (simp add: r t_def)
        then show ?thesis using re_sub_spaces_lstrip [of r] by simp
      qed
      finally show ?thesis using ne by (simp add: split join_space_Cons IH lhs)
    qed
  qed
qed

lemma py_split_words:
  "w \<in> set (py_split s) \<Longrightarrow> w \<noteq> [] \<and> (\<forall>c\<in>set w. \<not> is_space c)"
proof (induction s rule: py_split.induct)
  case (1 s)
  show ?case
  proof (cases "dropWhile is_space s")
    case Nil
    then have "py_split s = []" by (rule py_split_Nil)
    with "1.prems" show ?thesis by simp
  next
    case (Cons c cs)
    have nsp: "\<not> is_space c" using Cons by (rule dropWhile_space_hd)
    have sp: "py_split s =
        (c # takeWhile (\<lambda>x. \<not> is_space x) cs) # py_split (dropWhile (\<lambda>x. \<not> is_space x) cs)"
      using Cons by (rule py_split_Cons)
    from "1.prems"
    consider "w = c # takeWhile (\<lambda>x. \<not> is_space x) cs"
      | "w \<in> set (py_split (dropWhile (\<lambda>x. \<not> is_space x) cs))"
      unfolding sp by auto
    then show ?thesis
    proof cases
      case 1
      then show ?thesis using nsp by (auto dest: set_takeWhileD)
    next
      case 2
      then show ?thesis by (rule "1.IH" [OF Cons])
    qed
  qed
qed

lemma py_split_space: "is_space a \<Longrightarrow> py_split (a # s) = py_split s"
proof (cases "dropWhile is_space s")
  case Nil
  assume a: "is_space a"
  from Nil a have "dropWhile is_space (a # s) = []" by simp
  then have "py_split (a # s) = []" by (rule py_split_Nil)
  moreover from Nil have "py_split s = []" by (rule py_split_Nil)
  ultimately show ?thesis by (simp only:)
next
  case (Cons c cs)
  assume a: "is_space a"
  from Cons a have "dropWhile is_space (a # s) = c # cs" by simp
  from py_split_Cons [OF this] py_split_Cons [OF Cons] show ?thesis by (simp only:)
qed

lemma py_split_word:
  assumes c: "\<not> is_space c" and cs: "\<forall>x\<in>set cs. \<not> is_space x"
  shows "py_split (c # cs) = [c # cs]"
    and "is_space a \<Longrightarrow> py_split (c # cs @ a # r) = (c # cs) # py_split r"
proof -
  have 1: "dropWhile is_space (c # cs) = c # cs" using c by simp
  have 2: "takeWhile (\<lambda>x. \<not> is_space x) cs = cs" using cs by simp
  have 3: "dropWhile (\<lambda>x. \<not> is_space x) cs = []" using cs by simp
  have "py_split [] = []" by (rule py_split_Nil) simp
  with py_split_Cons [OF 1] show "py_split (c # cs) = [c # cs]" by (simp only: 2 3)
next
  assume a: "is_space a"
  have 1: "dropWhile is_space (c # cs @ a # r) = c # cs @ a # r" using c by simp
  have 2: "takeWhile (\<lambda>x. \<not> is_space x) (cs @ a # r) = cs"
    using cs a by (simp add: takeWhile_append)
  have 3: "dropWhile (\<lambda>x. \<not> is_space x) (cs @ a # r) = a # r"
    using cs a by (simp add: dropWhile_append)
  have "py_split (c # cs @ a # r) = (c # cs) # py_split (a # r)"
    using py_split_Cons [OF 1] by (simp only: 2 3)
  also have "py_split (a # r) = py_split r" using a by (rule py_split_space)
  finally show "py_split (c # cs @ a # r) = (c # cs) # py_split r" .
qed

lemma py_split_join:
  "\<forall>w\<in>set ws. w \<noteq> [] \<and> (\<forall>c\<in>set w. \<not> is_space c) \<Longrightarrow> py_split (join_space ws) = ws"
proof (induction ws rule: join_space.induct)
  case 1
  have "py_split [] = []" by (rule py_split_Nil) simp
  then show ?case by (simp only: join_space.simps)
next
  case (2 w)
  then obtain c cs where w: "w = c # cs" by (cases w) auto
  have cs: "\<forall>x\<in>set cs. \<not> is_space x" and c: "\<not> is_space c" using 2 w by auto
  show ?case using py_split_word(1) [OF c cs] by (simp only: w join_space.simps)
next
  case (3 w v ws)
  then obtain c cs where w: "w = c # cs" by (cases w) auto
  have cs: "\<forall>x\<in>set cs. \<not> is_space x" and c: "\<not> is_space c" using 3 w by auto
  have rest: "\<forall>w\<in>set (v # ws). w \<noteq> [] \<and> (\<forall>c\<in>set w. \<not> is_space c)"
    using "3.prems" by simp
  have IH: "py_split (join_space (v # ws)) = v # ws" using rest by (rule "3.IH")
  have "join_space (w # v # ws) = c # cs @ CHR '' '' # join_space (v # ws)"
    by (simp only: w join_space.simps append_Cons)
  then show ?case
    using py_split_word(2) [OF c cs is_space_blank, of "join_space (v # ws)"]
    by (simp only: IH w)
qed

subsection \<open>ORP resolver\<close>

lemma calculate_orp_index_rank: "calculate_orp_index w = orp_rank (length (filter is_word w))"
  by (simp add: calculate_orp_index_def orp_rank_def letters_only_def Let_def)

lemma orp_rank_less: "0 < n \<Longrightarrow> orp_rank n < n"
  by (simp add: orp_rank_def)

lemma orp_loop_none: "filter is_word cs = [] \<Longrightarrow> orp_loop r i k cs = 0"
  by (induction cs arbitrary: i k) (auto split: if_splits)

lemma orp_loop_found:
  "k \<le> r \<Longrightarrow> r - k < length (filter is_word cs) \<Longrightarrow>
   \<exists>j<length cs. orp_loop r i k cs = i + j \<and> is_word (cs ! j) \<and>
     length (filter is_word (take j cs)) = r - k"
proof (induction cs arbitrary: i k)
  case Nil
  then show ?case by simp
next
  case (Cons c cs)
  show ?case
  proof (cases "is_word c")
    case False
    with Cons.prems have "r - k < length (filter is_word cs)" by simp
    from Cons.IH [OF Cons.prems(1) this, of "Suc i"]
    obtain j where j: "j < length cs" "orp_loop r (Suc i) k cs = Suc i + j" "is_word (cs ! j)"
      "length (filter is_word (take j cs)) = r - k" by blast
    with False show ?thesis by (intro exI [of _ "Suc j"]) simp
  next
    case True
    show ?thesis
    proof (cases "k = r")
      case True
      with \<open>is_word c\<close> show ?thesis by (intro exI [of _ 0]) simp
    next
      case False
      with Cons.prems \<open>is_word c\<close> have k: "Suc k \<le> r" and "r - Suc k < length (filter is_word cs)"
        by auto
      from Cons.IH [OF this, of "Suc i"]
      obtain j where j: "j < length cs" "orp_loop r (Suc i) (Suc k) cs = Suc i + j" "is_word (cs ! j)"
        "length (filter is_word (take j cs)) = r - Suc k" by blast
      with False \<open>is_word c\<close> k show ?thesis by (intro exI [of _ "Suc j"]) auto
    qed
  qed
qed

text \<open>
  Claim C2. For every display string, \<^verbatim>\<open>find_orp_in_word\<close> returns the index, in the string
  itself, of the word character whose 0-based rank among the word characters is the rank
  of the table (\<open>n \<le> 1\<close>: 0, 2 to 5: 1, 6 to 9: 2, 10 to 13: 3, \<open>n \<ge> 14\<close>: \<open>n div 4\<close>, for
  \<open>n\<close> word characters), and 0 when the string has no word character. For "a" it is 0,
  for "hello," it is 1, and 1, 5, 9, 13, 20 letters have the ranks 0, 1, 2, 3, 5.
\<close>

theorem find_orp_in_word_rank:
  "calculate_orp_index w = orp_rank (length (filter is_word w)) \<and>
   (filter is_word w = [] \<longrightarrow> find_orp_in_word w = 0) \<and>
   (filter is_word w \<noteq> [] \<longrightarrow>
      find_orp_in_word w < length w \<and> is_word (w ! find_orp_in_word w) \<and>
      length (filter is_word (take (find_orp_in_word w) w)) = orp_rank (length (filter is_word w))) \<and>
   find_orp_in_word ''a'' = 0 \<and> find_orp_in_word ''hello,'' = 1 \<and>
   map (\<lambda>n. calculate_orp_index (replicate n CHR ''x'')) [1, 5, 9, 13, 20] = [0, 1, 2, 3, 5]"
proof (intro conjI impI)
  show "calculate_orp_index w = orp_rank (length (filter is_word w))"
    by (rule calculate_orp_index_rank)
  show "find_orp_in_word w = 0" if "filter is_word w = []"
    using that by (simp add: find_orp_in_word_def orp_loop_none)
  show "find_orp_in_word ''a'' = 0" by code_simp
  show "find_orp_in_word ''hello,'' = 1" by code_simp
  show "map (\<lambda>n. calculate_orp_index (replicate n CHR ''x'')) [1, 5, 9, 13, 20] = [0, 1, 2, 3, 5]"
    by code_simp
next
  assume ne: "filter is_word w \<noteq> []"
  then have "orp_rank (length (filter is_word w)) < length (filter is_word w)"
    by (simp add: orp_rank_less)
  then have "calculate_orp_index w - 0 < length (filter is_word w)"
    by (simp add: calculate_orp_index_rank)
  from orp_loop_found [OF _ this, of 0]
  obtain j where j: "j < length w" "find_orp_in_word w = j" "is_word (w ! j)"
    "length (filter is_word (take j w)) = calculate_orp_index w"
    by (auto simp: find_orp_in_word_def)
  then show "find_orp_in_word w < length w" "is_word (w ! find_orp_in_word w)"
    "length (filter is_word (take (find_orp_in_word w) w)) = orp_rank (length (filter is_word w))"
    by (simp_all add: calculate_orp_index_rank)
qed

text \<open>The theorem at "hello," (five word characters) and at "?!" (none).\<close>

theorem find_orp_in_word_rank_witness:
  "filter is_word ''hello,'' \<noteq> [] \<and> find_orp_in_word ''hello,'' < length ''hello,'' \<and>
   is_word (''hello,'' ! find_orp_in_word ''hello,'') \<and>
   length (filter is_word (take (find_orp_in_word ''hello,'') ''hello,'')) = 1 \<and>
   filter is_word ''?!'' = [] \<and> find_orp_in_word ''?!'' = 0"
proof -
  have a: "filter is_word ''hello,'' \<noteq> []" by code_simp
  have b: "filter is_word ''?!'' = []" by code_simp
  have c: "orp_rank (length (filter is_word ''hello,'')) = 1" by code_simp
  show ?thesis
    using find_orp_in_word_rank [of "''hello,''"] find_orp_in_word_rank [of "''?!''"] a b c
    by simp
qed

subsection \<open>Tokenizer\<close>

lemma PERIOD_DELAY_MULTIPLIER_eq: "PERIOD_DELAY_MULTIPLIER = 2"
  by code_simp

lemma COMMA_DELAY_MULTIPLIER_eq: "COMMA_DELAY_MULTIPLIER = 3 / 2"
  by code_simp

lemma py_strip_word:
  assumes "w \<noteq> []" and "\<forall>c\<in>set w. \<not> is_space c"
  shows "py_strip w = w"
proof -
  from assms obtain c cs where w: "w = c # cs" by (cases w) auto
  with assms have "\<forall>x\<in>set (c # cs). \<not> is_space x" by simp
  from py_rstrip_word_append [OF this, of "[]"] have "py_rstrip (c # cs) = c # cs" by simp
  moreover have "dropWhile is_space (c # cs) = c # cs" using assms w by simp
  ultimately show ?thesis by (simp only: py_strip_rstrip w)
qed

text \<open>
  A unit of \<^verbatim>\<open>split()\<close> holds no line feed, so \<^verbatim>\<open>$\<close> matches at its very end only.
\<close>

lemma re_search_end_word:
  assumes "w \<noteq> []" and "\<forall>c\<in>set w. \<not> is_space c"
  shows "re_search_end cls w \<longleftrightarrow> last w \<in> cls"
proof -
  have "last w \<in> set w" using assms(1) by simp
  with assms(2) have "\<not> is_space (last w)" by blast
  then have "last w \<noteq> CHR 0x0A" using is_space_LF by metis
  with assms(1) show ?thesis unfolding re_search_end_def by blast
qed

lemma tokenize_loop_words:
  "\<forall>w\<in>set ws. w \<noteq> [] \<and> (\<forall>c\<in>set w. \<not> is_space c) \<Longrightarrow> tokenize_loop ws = map make_token ws"
proof (induction ws)
  case Nil
  show ?case by simp
next
  case (Cons w ws)
  then have w: "w \<noteq> []" "\<forall>c\<in>set w. \<not> is_space c" by simp_all
  have IH: "tokenize_loop ws = map make_token ws" using Cons by simp
  show ?case
    using w(1)
    by (simp add: IH py_strip_word [OF w] re_search_end_word [OF w] make_token_def
        pacing_multiplier_def PERIOD_DELAY_MULTIPLIER_eq COMMA_DELAY_MULTIPLIER_eq Let_def)
qed

lemma join_space_eq_Nil:
  "\<forall>w\<in>set ws. w \<noteq> [] \<Longrightarrow> join_space ws = [] \<longleftrightarrow> ws = []"
  by (induction ws rule: join_space.induct) simp_all

lemma tokenize_text_split: "tokenize_text s = map make_token (py_split s)"
proof -
  have words: "\<forall>w\<in>set (py_split s). w \<noteq> [] \<and> (\<forall>c\<in>set w. \<not> is_space c)"
    using py_split_words by blast
  have norm: "re_sub_spaces (py_strip s) = join_space (py_split s)"
    by (simp only: join_split_code)
  show ?thesis
  proof (cases "py_split s = []")
    case True
    then show ?thesis by (simp add: tokenize_text_def norm)
  next
    case False
    then have "join_space (py_split s) \<noteq> []"
      using join_space_eq_Nil [of "py_split s"] words by blast
    moreover have "py_split (join_space (py_split s)) = py_split s"
      using words by (rule py_split_join)
    ultimately show ?thesis
      by (simp add: tokenize_text_def norm tokenize_loop_words [OF words])
  qed
qed

lemma map_word_make_token: "map word (map make_token ws) = ws"
  by (induction ws) (simp_all add: make_token_def)

text \<open>
  Claim C3, with its example put right. Every whitespace-delimited unit of the text
  becomes one token that keeps the unit verbatim; its multiplier depends on the last
  character of the unit only: 2.0 after one of \<^verbatim>\<open>.!?\<close>, else 1.5 after one of \<^verbatim>\<open>,;:\<close>,
  else 1.0. The text "Hi there. It's nice, ok?" gives the tokens "Hi", "there.", "It's",
  "nice,", "ok?" with the multipliers 1.0, 2.0, 1.0, 1.5, 2.0: the 1.5 belongs to
  "nice,", which ends in a comma, and "It's" has 1.0.
\<close>

theorem tokenize_text_pacing:
  "tokenize_text s = map (\<lambda>w. \<lparr>word = w, delay_multiplier = pacing_multiplier w\<rparr>) (py_split s) \<and>
   map word (tokenize_text ''Hi there. It's nice, ok?'') =
     [''Hi'', ''there.'', ''It's'', ''nice,'', ''ok?''] \<and>
   map delay_multiplier (tokenize_text ''Hi there. It's nice, ok?'') = [1, 2, 1, 3 / 2, 2]"
proof (intro conjI)
  have "make_token = (\<lambda>w. \<lparr>word = w, delay_multiplier = pacing_multiplier w\<rparr>)"
    by (rule ext) (simp add: make_token_def)
  then show "tokenize_text s =
      map (\<lambda>w. \<lparr>word = w, delay_multiplier = pacing_multiplier w\<rparr>) (py_split s)"
    using tokenize_text_split [of s] by simp
  show "map word (tokenize_text ''Hi there. It's nice, ok?'') =
      [''Hi'', ''there.'', ''It's'', ''nice,'', ''ok?'']"
    by code_simp
  show "map delay_multiplier (tokenize_text ''Hi there. It's nice, ok?'') = [1, 2, 1, 3 / 2, 2]"
    by code_simp
qed

text \<open>
  The multipliers that claim C3 lists for its example, 1.0, 2.0, 1.5, 1.0, 2.0, are not
  the ones of the tokenizer: they give 1.5 to "It's" and 1.0 to "nice,".
\<close>

theorem tokenize_text_example_counterexample:
  "map delay_multiplier (tokenize_text ''Hi there. It's nice, ok?'') \<noteq> [1, 2, 3 / 2, 1, 2]"
  by code_simp

text \<open>
  Claim C10. The words of the tokens, joined by single spaces, are the
  whitespace-normalized text; every word is non-empty and free of whitespace; and a
  text whose normalized form is non-empty has at least one token.
\<close>

theorem tokenize_text_join:
  "join_space (map word (tokenize_text s)) = normalize_whitespace s \<and>
   (\<forall>t\<in>set (tokenize_text s). word t \<noteq> [] \<and> (\<forall>c\<in>set (word t). \<not> is_space c)) \<and>
   (normalize_whitespace s \<noteq> [] \<longrightarrow> tokenize_text s \<noteq> [])"
proof (intro conjI)
  have words: "map word (tokenize_text s) = py_split s"
    by (simp only: tokenize_text_split map_word_make_token)
  show join: "join_space (map word (tokenize_text s)) = normalize_whitespace s"
    by (simp only: words join_split_spec normalize_whitespace_def)
  show "\<forall>t\<in>set (tokenize_text s). word t \<noteq> [] \<and> (\<forall>c\<in>set (word t). \<not> is_space c)"
  proof
    fix t assume "t \<in> set (tokenize_text s)"
    then have "word t \<in> set (map word (tokenize_text s))" by simp
    then have "word t \<in> set (py_split s)" by (simp only: words)
    then show "word t \<noteq> [] \<and> (\<forall>c\<in>set (word t). \<not> is_space c)" by (rule py_split_words)
  qed
  show "normalize_whitespace s \<noteq> [] \<longrightarrow> tokenize_text s \<noteq> []"
  proof
    assume n: "normalize_whitespace s \<noteq> []"
    show "tokenize_text s \<noteq> []"
    proof
      assume "tokenize_text s = []"
      then have "join_space (map word (tokenize_text s)) = []" by simp
      with join n show False by simp
    qed
  qed
qed

text \<open>The theorem at a text with whitespace of several kinds on every side.\<close>

theorem tokenize_text_join_witness:
  "normalize_whitespace [CHR '' '', CHR ''a'', CHR 0x09, CHR 0x0A, CHR ''b'', CHR ''.'', CHR '' ''] = ''a b.'' \<and>
   normalize_whitespace [CHR '' '', CHR ''a'', CHR 0x09, CHR 0x0A, CHR ''b'', CHR ''.'', CHR '' ''] \<noteq> [] \<and>
   tokenize_text [CHR '' '', CHR ''a'', CHR 0x09, CHR 0x0A, CHR ''b'', CHR ''.'', CHR '' ''] \<noteq> [] \<and>
   join_space (map word (tokenize_text [CHR '' '', CHR ''a'', CHR 0x09, CHR 0x0A, CHR ''b'', CHR ''.'', CHR '' ''])) = ''a b.'' \<and>
   word (hd (tokenize_text [CHR '' '', CHR ''a'', CHR 0x09, CHR 0x0A, CHR ''b'', CHR ''.'', CHR '' ''])) \<noteq> []"
proof -
  have a: "normalize_whitespace [CHR '' '', CHR ''a'', CHR 0x09, CHR 0x0A, CHR ''b'', CHR ''.'', CHR '' ''] = ''a b.''"
    by code_simp
  have b: "tokenize_text [CHR '' '', CHR ''a'', CHR 0x09, CHR 0x0A, CHR ''b'', CHR ''.'', CHR '' ''] \<noteq> [] \<longrightarrow> hd (tokenize_text [CHR '' '', CHR ''a'', CHR 0x09, CHR 0x0A, CHR ''b'', CHR ''.'', CHR '' '']) \<in> set (tokenize_text [CHR '' '', CHR ''a'', CHR 0x09, CHR 0x0A, CHR ''b'', CHR ''.'', CHR '' ''])"
    by simp
  show ?thesis
    using tokenize_text_join [of "[CHR '' '', CHR ''a'', CHR 0x09, CHR 0x0A, CHR ''b'', CHR ''.'', CHR '' '']"] a b
    by simp
qed

subsection \<open>Flash layout\<close>

lemma join_space_words_joined: "join_space ws = words_joined ws"
  by (induction ws rule: join_space.induct) (simp_all add: words_joined_def)

lemma find_orp_in_word_char:
  assumes ne: "filter is_word w \<noteq> []"
  shows "find_orp_in_word w < length w" "is_word (w ! find_orp_in_word w)"
    "length (filter is_word (take (find_orp_in_word w) w)) = orp_rank (length (filter is_word w))"
proof -
  from ne have "orp_rank (length (filter is_word w)) < length (filter is_word w)"
    by (simp add: orp_rank_less)
  then have "calculate_orp_index w - 0 < length (filter is_word w)"
    by (simp add: calculate_orp_index_rank)
  from orp_loop_found [OF _ this, of 0]
  obtain j where j: "j < length w" "find_orp_in_word w = j" "is_word (w ! j)"
    "length (filter is_word (take j w)) = calculate_orp_index w"
    by (auto simp: find_orp_in_word_def)
  then show "find_orp_in_word w < length w" "is_word (w ! find_orp_in_word w)"
    "length (filter is_word (take (find_orp_in_word w) w)) = orp_rank (length (filter is_word w))"
    by (simp_all add: calculate_orp_index_rank)
qed

lemma find_orp_in_word_none: "filter is_word w = [] \<Longrightarrow> find_orp_in_word w = 0"
  by (simp add: find_orp_in_word_def orp_loop_none)

lemma find_orp_in_word_less: "w \<noteq> [] \<Longrightarrow> find_orp_in_word w < length w"
  by (cases "filter is_word w = []") (simp_all add: find_orp_in_word_none find_orp_in_word_char(1))

lemma display_word_parts:
  "display_word w =
     \<lparr>left_label = take (find_orp_in_word w) w,
      orp_label = Chars (if find_orp_in_word w < length w then [w ! find_orp_in_word w] else []),
      right_label = drop (find_orp_in_word w + 1) w\<rparr>"
  by (simp add: display_word_def Let_def clear_def find_orp_in_word_none)

lemma display_phrase_parts:
  assumes ne: "\<forall>w\<in>set ws. w \<noteq> []" and len: "2 \<le> length ws"
  shows "display_phrase ws =
      \<lparr>left_label = join_parts (words_joined (take (length ws div 2) ws))
                      (take (find_orp_in_word (ws ! (length ws div 2))) (ws ! (length ws div 2))),
       orp_label = Chars [ws ! (length ws div 2) ! find_orp_in_word (ws ! (length ws div 2))],
       right_label = join_parts
                       (drop (find_orp_in_word (ws ! (length ws div 2)) + 1) (ws ! (length ws div 2)))
                       (words_joined (drop (length ws div 2 + 1) ws))\<rparr>"
proof -
  have "\<forall>w\<in>set (drop (length ws div 2 + 1) ws). w \<noteq> []"
    using ne by (meson in_set_dropD)
  then have r: "join_space (drop (length ws div 2 + 1) ws) = [] \<longleftrightarrow> drop (length ws div 2 + 1) ws = []"
    by (rule join_space_eq_Nil)
  have ws: "ws \<noteq> []" "length ws \<noteq> 1" using len by auto
  have "ws ! (length ws div 2) \<in> set ws" using len by (intro nth_mem) auto
  then have "ws ! (length ws div 2) \<noteq> []" using ne by blast
  then have k: "find_orp_in_word (ws ! (length ws div 2)) < length (ws ! (length ws div 2))"
    by (rule find_orp_in_word_less)
  show ?thesis
    unfolding display_phrase_def join_parts_def Let_def join_space_words_joined [symmetric]
    using ws r k by simp
qed

text \<open>
  The hypothesis on the token texts is needed: \<^verbatim>\<open>display_phrase\<close> tests whether there are
  tokens after the middle one, not whether their joined text is empty. The tokenizer
  never produces an empty token text.
\<close>

lemma display_phrase_empty_token: "right_label (display_phrase [''a'', ''bcd'', '''']) = ''d ''"
  by code_simp

text \<open>
  Claim C6. For two or more tokens with non-empty texts the middle token, at index
  \<open>count div 2\<close>, is split at its ORP index \<open>k\<close>, which lies inside the token and is the
  position of the word character that has as many word characters before it as the
  rank table says (0 when the token has no word character). The tokens before the
  middle one, joined by single spaces, are put before its left part \<open>take k\<close>, and the
  tokens after it, joined by single spaces, after its right part \<open>drop (k + 1)\<close>, each
  time with a separating space when both parts are non-empty; the focus is the
  character at \<open>k\<close>. A single token is split at its ORP index in the same way.
\<close>

theorem display_phrase_layout:
  assumes "\<forall>w\<in>set ws. w \<noteq> []"
  shows "(2 \<le> length ws \<longrightarrow>
          (let mid = ws ! (length ws div 2); k = find_orp_in_word mid in
             k < length mid \<and>
             (filter is_word mid = [] \<longrightarrow> k = 0) \<and>
             (filter is_word mid \<noteq> [] \<longrightarrow>
                is_word (mid ! k) \<and>
                length (filter is_word (take k mid)) = orp_rank (length (filter is_word mid))) \<and>
             display_phrase ws =
               \<lparr>left_label = join_parts (words_joined (take (length ws div 2) ws)) (take k mid),
                orp_label = Chars [mid ! k],
                right_label =
                  join_parts (drop (k + 1) mid) (words_joined (drop (length ws div 2 + 1) ws))\<rparr>)) \<and>
         (let k = find_orp_in_word w in
            display_phrase [w] =
              \<lparr>left_label = take k w,
               orp_label = Chars (if k < length w then [w ! k] else []),
               right_label = drop (k + 1) w\<rparr>)"
proof (intro conjI impI)
  assume len: "2 \<le> length ws"
  have "ws ! (length ws div 2) \<in> set ws" using len by (intro nth_mem) auto
  then have mid: "ws ! (length ws div 2) \<noteq> []" using assms by blast
  show "let mid = ws ! (length ws div 2); k = find_orp_in_word mid in
             k < length mid \<and>
             (filter is_word mid = [] \<longrightarrow> k = 0) \<and>
             (filter is_word mid \<noteq> [] \<longrightarrow>
                is_word (mid ! k) \<and>
                length (filter is_word (take k mid)) = orp_rank (length (filter is_word mid))) \<and>
             display_phrase ws =
               \<lparr>left_label = join_parts (words_joined (take (length ws div 2) ws)) (take k mid),
                orp_label = Chars [mid ! k],
                right_label =
                  join_parts (drop (k + 1) mid) (words_joined (drop (length ws div 2 + 1) ws))\<rparr>"
    unfolding Let_def
    using find_orp_in_word_less [OF mid] find_orp_in_word_none [of "ws ! (length ws div 2)"]
      find_orp_in_word_char(2,3) [of "ws ! (length ws div 2)"]
      display_phrase_parts [OF assms len]
    by blast
next
  have "display_phrase [w] = display_word w" by (simp add: display_phrase_def)
  then show "let k = find_orp_in_word w in
            display_phrase [w] =
              \<lparr>left_label = take k w,
               orp_label = Chars (if k < length w then [w ! k] else []),
               right_label = drop (k + 1) w\<rparr>"
    unfolding Let_def by (simp only: display_word_parts)
qed

text \<open>
  The theorem at a flash of five tokens with two tokens on each side of a middle
  token of rank 3, at two flashes whose middle token has an empty left or right
  part, and at a single token whose ORP index is 4.
\<close>

theorem display_phrase_layout_witness:
  "display_phrase [''The'', ''quick'', ''extraordinary'', ''fox'', ''jumps.''] =
     \<lparr>left_label = ''The quick ext'', orp_label = Chars ''r'',
      right_label = ''aordinary fox jumps.''\<rparr> \<and>
   display_phrase [''go'', ''a''] =
     \<lparr>left_label = ''go'', orp_label = Chars ''a'', right_label = ''''\<rparr> \<and>
   display_phrase [''I'', ''am'', ''he'', ''who''] =
     \<lparr>left_label = ''I am h'', orp_label = Chars ''e'', right_label = ''who''\<rparr> \<and>
   display_phrase [''(extraordinary)''] =
     \<lparr>left_label = ''(ext'', orp_label = Chars ''r'', right_label = ''aordinary)''\<rparr>"
proof -
  let ?a = "[''The'', ''quick'', ''extraordinary'', ''fox'', ''jumps.'']"
  let ?b = "[''go'', ''a'']"
  let ?c = "[''I'', ''am'', ''he'', ''who'']"
  have ne: "\<forall>w\<in>set ?a. w \<noteq> []" "\<forall>w\<in>set ?b. w \<noteq> []" "\<forall>w\<in>set ?c. w \<noteq> []"
    by simp_all
  have len: "2 \<le> length ?a" "2 \<le> length ?b" "2 \<le> length ?c" by simp_all
  from display_phrase_layout [OF ne(1), of "''(extraordinary)''"] len(1)
  have a: "display_phrase ?a =
      \<lparr>left_label = join_parts (words_joined (take (length ?a div 2) ?a))
                      (take (find_orp_in_word (?a ! (length ?a div 2))) (?a ! (length ?a div 2))),
       orp_label = Chars [?a ! (length ?a div 2) ! find_orp_in_word (?a ! (length ?a div 2))],
       right_label = join_parts
                       (drop (find_orp_in_word (?a ! (length ?a div 2)) + 1) (?a ! (length ?a div 2)))
                       (words_joined (drop (length ?a div 2 + 1) ?a))\<rparr>" (is "_ = ?ra")
    and d: "display_phrase [''(extraordinary)''] =
              \<lparr>left_label = take (find_orp_in_word ''(extraordinary)'') ''(extraordinary)'',
               orp_label = Chars (if find_orp_in_word ''(extraordinary)'' < length ''(extraordinary)''
                                  then [''(extraordinary)'' ! find_orp_in_word ''(extraordinary)''] else []),
               right_label = drop (find_orp_in_word ''(extraordinary)'' + 1) ''(extraordinary)''\<rparr>"
      (is "_ = ?rd")
    unfolding Let_def by blast+
  from display_phrase_layout [OF ne(2), of "[]"] len(2)
  have b: "display_phrase ?b =
      \<lparr>left_label = join_parts (words_joined (take (length ?b div 2) ?b))
                      (take (find_orp_in_word (?b ! (length ?b div 2))) (?b ! (length ?b div 2))),
       orp_label = Chars [?b ! (length ?b div 2) ! find_orp_in_word (?b ! (length ?b div 2))],
       right_label = join_parts
                       (drop (find_orp_in_word (?b ! (length ?b div 2)) + 1) (?b ! (length ?b div 2)))
                       (words_joined (drop (length ?b div 2 + 1) ?b))\<rparr>" (is "_ = ?rb")
    unfolding Let_def by blast
  from display_phrase_layout [OF ne(3), of "[]"] len(3)
  have c: "display_phrase ?c =
      \<lparr>left_label = join_parts (words_joined (take (length ?c div 2) ?c))
                      (take (find_orp_in_word (?c ! (length ?c div 2))) (?c ! (length ?c div 2))),
       orp_label = Chars [?c ! (length ?c div 2) ! find_orp_in_word (?c ! (length ?c div 2))],
       right_label = join_parts
                       (drop (find_orp_in_word (?c ! (length ?c div 2)) + 1) (?c ! (length ?c div 2)))
                       (words_joined (drop (length ?c div 2 + 1) ?c))\<rparr>" (is "_ = ?rc")
    unfolding Let_def by blast
  have ra: "?ra = \<lparr>left_label = ''The quick ext'', orp_label = Chars ''r'',
      right_label = ''aordinary fox jumps.''\<rparr>" by code_simp
  have rb: "?rb = \<lparr>left_label = ''go'', orp_label = Chars ''a'', right_label = ''''\<rparr>"
    by code_simp
  have rc: "?rc = \<lparr>left_label = ''I am h'', orp_label = Chars ''e'', right_label = ''who''\<rparr>"
    by code_simp
  have rd: "?rd = \<lparr>left_label = ''(ext'', orp_label = Chars ''r'', right_label = ''aordinary)''\<rparr>"
    by code_simp
  from a b c d show ?thesis by (simp only: ra rb rc rd)
qed

subsection \<open>Reading control\<close>

lemma progress_bar_setValue_fields [simp]:
  "tokens (progress_bar_setValue v s) = tokens s"
  "current_index (progress_bar_setValue v s) = current_index s"
  "is_playing (progress_bar_setValue v s) = is_playing s"
  "is_paused (progress_bar_setValue v s) = is_paused s"
  "wpm (progress_bar_setValue v s) = wpm s"
  "words_per_flash (progress_bar_setValue v s) = words_per_flash s"
  "is_fullscreen (progress_bar_setValue v s) = is_fullscreen s"
  "timer (progress_bar_setValue v s) = timer s"
  "orp_display (progress_bar_setValue v s) = orp_display s"
  by (simp_all add: progress_bar_setValue_def)

lemma update_progress_fields [simp]:
  "tokens (update_progress s) = tokens s"
  "current_index (update_progress s) = current_index s"
  "is_playing (update_progress s) = is_playing s"
  "is_paused (update_progress s) = is_paused s"
  "wpm (update_progress s) = wpm s"
  "words_per_flash (update_progress s) = words_per_flash s"
  "is_fullscreen (update_progress s) = is_fullscreen s"
  "timer (update_progress s) = timer s"
  "orp_display (update_progress s) = orp_display s"
  by (simp_all add: update_progress_def Let_def)

lemma update_time_estimate_Inr:
  "words_per_flash s \<noteq> 0 \<Longrightarrow> wpm s \<noteq> 0 \<Longrightarrow> update_time_estimate s = Inr s"
  by (simp add: update_time_estimate_def)

lemma update_time_estimate_InrD: "update_time_estimate s = Inr s' \<Longrightarrow> s' = s"
  by (auto simp: update_time_estimate_def split: if_splits)

lemma foldl_max_Max: "foldl max x ys = Max (set (x # ys))"
proof -
  have "foldl max x ys = fold max ys x"
    by (simp add: foldl_conv_fold max.commute)
  also have "\<dots> = Max (set (x # ys))" by (simp only: Max.set_eq_fold)
  finally show ?thesis .
qed

lemma py_max_Inr: "xs \<noteq> [] \<Longrightarrow> py_max xs = Inr (Max (set xs))"
  by (cases xs) (simp_all add: py_max_def foldl_max_Max del: set_simps)

lemma py_slice_take_drop:
  "0 \<le> a \<Longrightarrow> a \<le> b \<Longrightarrow> b \<le> int (length xs) \<Longrightarrow> py_slice xs a b = take (nat (b - a)) (drop (nat a) xs)"
  by (simp add: py_slice_def Let_def min_def)

lemma flash_tokens_at_eq:
  assumes "0 \<le> current_index s" "current_index s < int (length (tokens s))" "1 \<le> words_per_flash s"
  shows "flash_tokens_at s =
           take (nat (min (words_per_flash s) (int (length (tokens s)) - current_index s)))
             (drop (nat (current_index s)) (tokens s))"
    and "flash_tokens_at s \<noteq> []"
proof -
  let ?e = "min (current_index s + words_per_flash s) (int (length (tokens s)))"
  have e: "current_index s < ?e" "?e \<le> int (length (tokens s))" using assms by auto
  have "flash_tokens_at s = take (nat (?e - current_index s)) (drop (nat (current_index s)) (tokens s))"
    unfolding flash_tokens_at_def using assms(1) e by (intro py_slice_take_drop) auto
  moreover have "?e - current_index s = min (words_per_flash s) (int (length (tokens s)) - current_index s)"
    by auto
  ultimately show "flash_tokens_at s =
           take (nat (min (words_per_flash s) (int (length (tokens s)) - current_index s)))
             (drop (nat (current_index s)) (tokens s))" by simp
  then show "flash_tokens_at s \<noteq> []" using assms by auto
qed

lemma display_next_word_finish:
  "int (length (tokens s)) \<le> current_index s \<Longrightarrow>
   display_next_word s =
     Inr (progress_bar_setValue 100
            (s\<lparr>timer := None, is_playing := False, orp_display := display_message_done\<rparr>))"
  by (simp add: display_next_word_def)

lemma display_next_word_step:
  assumes "0 \<le> current_index s" "current_index s < int (length (tokens s))"
    "1 \<le> words_per_flash s" "wpm s \<noteq> 0"
  shows "display_next_word s =
     Inr ((update_progress
            (s\<lparr>orp_display := flash_display (map word (flash_tokens_at s)),
               current_index := min (current_index s + words_per_flash s) (int (length (tokens s)))\<rparr>))
          \<lparr>timer := Some (py_int (flash_delay (wpm s) (words_per_flash s)
                                    (Max (set (map delay_multiplier (flash_tokens_at s))))))\<rparr>)"
proof -
  have ne: "map delay_multiplier (flash_tokens_at s) \<noteq> []"
    using flash_tokens_at_eq(2) [OF assms(1-3)] by simp
  have u: "update_time_estimate (update_progress
            (s\<lparr>orp_display := flash_display (map word (flash_tokens_at s)),
               current_index := min (current_index s + words_per_flash s) (int (length (tokens s)))\<rparr>))
        = Inr (update_progress
            (s\<lparr>orp_display := flash_display (map word (flash_tokens_at s)),
               current_index := min (current_index s + words_per_flash s) (int (length (tokens s)))\<rparr>))"
    using assms by (intro update_time_estimate_Inr) auto
  show ?thesis
    using assms(2)
    by (simp add: display_next_word_def Let_def flash_tokens_at_def [symmetric] py_max_Inr [OF ne] u
        flash_delay_def del: set_map)
qed

lemma tokenize_text_nonblank: "py_strip text \<noteq> [] \<Longrightarrow> tokenize_text (py_strip text) \<noteq> []"
proof -
  assume ne: "py_strip text \<noteq> []"
  let ?u = "dropWhile is_space (rev (dropWhile is_space text))"
  have u: "?u \<noteq> []" using ne by (simp add: py_strip_def)
  then have "\<not> is_space (hd ?u)" by (rule hd_dropWhile)
  moreover have "hd ?u \<in> set (py_strip text)" using u by (simp add: py_strip_def)
  ultimately have "\<not> (\<forall>x\<in>set (py_strip text). is_space x)" by blast
  then have "py_split (py_strip text) \<noteq> []" by (simp only: py_split_eq_Nil not_False_eq_True)
  then show ?thesis by (simp add: tokenize_text_split)
qed

lemma stop_reading_fields:
  "timer (stop_reading s) = None" "current_index (stop_reading s) = 0"
  "\<not> is_playing (stop_reading s)" "\<not> is_paused (stop_reading s)"
  "tokens (stop_reading s) = tokens s" "wpm (stop_reading s) = wpm s"
  "words_per_flash (stop_reading s) = words_per_flash s"
  by (simp_all add: stop_reading_def)

lemma state_ok_cong:
  "tokens s' = tokens s \<Longrightarrow> current_index s' = current_index s \<Longrightarrow> wpm s' = wpm s \<Longrightarrow>
   words_per_flash s' = words_per_flash s \<Longrightarrow> state_ok s' = state_ok s"
  by (simp add: state_ok_def)

lemma state_ok_nonzero: "state_ok s \<Longrightarrow> wpm s \<noteq> 0 \<and> words_per_flash s \<noteq> 0"
  by (auto simp: state_ok_def MIN_WPM_def)

lemma display_next_word_ok:
  assumes "state_ok s"
  shows "\<exists>s'. display_next_word s = Inr s' \<and> state_ok s' \<and> tokens s' = tokens s \<and>
              is_playing s' = (is_playing s \<and> current_index s < int (length (tokens s))) \<and>
              is_paused s' = is_paused s"
proof (cases "int (length (tokens s)) \<le> current_index s")
  case True
  show ?thesis
    unfolding display_next_word_finish [OF True]
    using assms True by (simp add: state_ok_def)
next
  case False
  have h: "0 \<le> current_index s" "current_index s < int (length (tokens s))"
    "1 \<le> words_per_flash s" "wpm s \<noteq> 0"
    using assms False by (auto simp: state_ok_def MIN_WPM_def)
  show ?thesis
    unfolding display_next_word_step [OF h]
    using assms h by (simp add: state_ok_def)
qed

lemma resume_reading_ok:
  assumes "state_ok s" "tokens s \<noteq> []"
  shows "\<exists>s'. resume_reading s = Inr s' \<and> state_ok s' \<and> tokens s' = tokens s \<and> is_playing s'"
proof -
  let ?t = "s\<lparr>current_index := (if current_index s \<ge> int (length (tokens s)) then 0
                             else current_index s),
          is_playing := True, is_paused := False\<rparr>"
  have ok: "state_ok ?t" using assms by (simp add: state_ok_def)
  have lt: "current_index ?t < int (length (tokens ?t))" using assms(2) by simp
  from display_next_word_ok [OF ok] lt show ?thesis
    unfolding resume_reading_def by auto
qed

lemma pause_reading_ok: "state_ok (pause_reading s) = state_ok s"
  by (simp add: pause_reading_def state_ok_def)

lemma stop_reading_ok: "state_ok s \<Longrightarrow> state_ok (stop_reading s)"
  by (simp add: stop_reading_def state_ok_def)

lemma toggle_play_pause_ok:
  assumes "state_ok s"
  shows "\<exists>s'. toggle_play_pause s = Inr s' \<and> state_ok s' \<and> tokens s' = tokens s"
proof (cases "tokens s = []")
  case True
  then show ?thesis using assms by (simp add: toggle_play_pause_def)
next
  case False
  show ?thesis
  proof (cases "is_playing s")
    case True
    then show ?thesis using assms False
      by (simp add: toggle_play_pause_def pause_reading_ok) (simp add: pause_reading_def)
  next
    case np: False
    from resume_reading_ok [OF assms False] show ?thesis
      using False np by (auto simp: toggle_play_pause_def)
  qed
qed

lemma show_current_word_fields [simp]:
  "tokens (show_current_word s) = tokens s"
  "current_index (show_current_word s) = current_index s"
  "is_playing (show_current_word s) = is_playing s"
  "is_paused (show_current_word s) = is_paused s"
  "wpm (show_current_word s) = wpm s"
  "words_per_flash (show_current_word s) = words_per_flash s"
  "timer (show_current_word s) = timer s"
  by (simp_all add: show_current_word_def Let_def)

lemma seek_ok:
  assumes "state_ok s" "0 \<le> i" "i \<le> int (length (tokens s))"
  shows "\<exists>s'. (case update_time_estimate (update_progress (s\<lparr>current_index := i\<rparr>)) of
             Inl e \<Rightarrow> Inl e
           | Inr s2 \<Rightarrow>
               if is_playing s2 then display_next_word (s2\<lparr>timer := None\<rparr>)
               else Inr (show_current_word s2)) = Inr s' \<and> state_ok s' \<and> tokens s' = tokens s"
proof -
  let ?s1 = "update_progress (s\<lparr>current_index := i\<rparr>)"
  have ok: "state_ok ?s1" using assms by (simp add: state_ok_def)
  have u: "update_time_estimate ?s1 = Inr ?s1"
    using state_ok_nonzero [OF ok] by (intro update_time_estimate_Inr) auto
  have ok': "state_ok (?s1\<lparr>timer := None\<rparr>)" using ok by (simp add: state_ok_def)
  show ?thesis
  proof (cases "is_playing s")
    case True
    from display_next_word_ok [OF ok'] show ?thesis
      unfolding u using True by auto
  next
    case False
    have "state_ok (show_current_word ?s1)"
      using ok by (simp add: state_ok_def)
    then show ?thesis unfolding u using False by simp
  qed
qed

lemma seek_bounds:
  fixes d i n :: int
  assumes "0 \<le> d" "0 \<le> i" "i \<le> n"
  shows "0 \<le> max 0 (i - d)" "max 0 (i - d) \<le> n"
    and "0 < n \<Longrightarrow> 0 \<le> min (n - 1) (i + d)" "0 < n \<Longrightarrow> min (n - 1) (i + d) \<le> n"
  using assms by auto

lemma rewind_ok:
  assumes "state_ok s"
  shows "\<exists>s'. rewind s = Inr s' \<and> state_ok s' \<and> tokens s' = tokens s"
proof (cases "tokens s = []")
  case True
  then show ?thesis using assms by (simp add: rewind_def)
next
  case False
  have "0 \<le> max REWIND_WORDS (int (length (tokens s)) div 20) * words_per_flash s"
    using assms by (simp add: state_ok_def REWIND_WORDS_def)
  moreover have "0 \<le> current_index s" "current_index s \<le> int (length (tokens s))"
    using assms by (simp_all add: state_ok_def)
  ultimately have
    "0 \<le> max 0 (current_index s - max REWIND_WORDS (int (length (tokens s)) div 20) * words_per_flash s)"
    "max 0 (current_index s - max REWIND_WORDS (int (length (tokens s)) div 20) * words_per_flash s)
       \<le> int (length (tokens s))"
    by (rule seek_bounds)+
  from seek_ok [OF assms this] show ?thesis
    using False by (simp add: rewind_def Let_def)
qed

lemma forward_ok:
  assumes "state_ok s"
  shows "\<exists>s'. forward s = Inr s' \<and> state_ok s' \<and> tokens s' = tokens s"
proof (cases "tokens s = []")
  case True
  then show ?thesis using assms by (simp add: forward_def)
next
  case False
  have "0 \<le> max FORWARD_WORDS (int (length (tokens s)) div 20) * words_per_flash s"
    using assms by (simp add: state_ok_def FORWARD_WORDS_def)
  moreover have "0 \<le> current_index s" "current_index s \<le> int (length (tokens s))"
    using assms by (simp_all add: state_ok_def)
  moreover have "0 < int (length (tokens s))" using False by simp
  ultimately have
    "0 \<le> min (int (length (tokens s)) - 1)
           (current_index s + max FORWARD_WORDS (int (length (tokens s)) div 20) * words_per_flash s)"
    "min (int (length (tokens s)) - 1)
           (current_index s + max FORWARD_WORDS (int (length (tokens s)) div 20) * words_per_flash s)
       \<le> int (length (tokens s))"
    by (rule seek_bounds)+
  from seek_ok [OF assms this] show ?thesis
    using False by (simp add: forward_def Let_def)
qed

lemma start_reading_cases:
  assumes "state_ok s"
  shows "(py_strip text = [] \<and> start_reading text s = Inr (Some No_Text, s)) \<or>
         (py_strip text \<noteq> [] \<and> tokenize_text (py_strip text) \<noteq> [] \<and>
          (\<exists>s'. start_reading text s = Inr (None, s') \<and> state_ok s' \<and>
                tokens s' = tokenize_text (py_strip text) \<and> is_playing s'))"
proof (cases "py_strip text = []")
  case True
  then show ?thesis by (simp add: start_reading_def)
next
  case False
  then have ne: "tokenize_text (py_strip text) \<noteq> []" by (rule tokenize_text_nonblank)
  let ?s3 = "(progress_bar_setValue 0
                     (s\<lparr>tokens := tokenize_text (py_strip text), current_index := 0,
                        is_playing := False, is_paused := False\<rparr>))\<lparr>orp_display := clear\<rparr>"
  have ok: "state_ok ?s3" using assms by (simp add: state_ok_def)
  have u: "update_time_estimate ?s3 = Inr ?s3"
    using state_ok_nonzero [OF ok] by (intro update_time_estimate_Inr) auto
  have t: "tokens ?s3 \<noteq> []" using ne by simp
  have np: "\<not> is_playing ?s3" by simp
  from resume_reading_ok [OF ok t]
  obtain s' where s': "resume_reading ?s3 = Inr s'" "state_ok s'" "tokens s' = tokens ?s3" "is_playing s'"
    by blast
  have "toggle_play_pause ?s3 = Inr s'"
    using t np s'(1) by (simp add: toggle_play_pause_def)
  then have "start_reading text s = Inr (None, s')"
    using False ne u by (simp add: start_reading_def Let_def)
  then show ?thesis using False ne s' by simp
qed

lemma handle_ok:
  assumes "state_ok s" "enabled e s"
  shows "\<exists>s'. handle e s = Inr s' \<and> state_ok s'"
proof (cases e)
  case (Start x)
  from start_reading_cases [OF assms(1), of x] show ?thesis
    using assms(1) Start by auto
next
  case Toggle
  then show ?thesis using toggle_play_pause_ok [OF assms(1)] by auto
next
  case Stop
  then show ?thesis using stop_reading_ok [OF assms(1)] by simp
next
  case Rewind
  then show ?thesis using rewind_ok [OF assms(1)] by auto
next
  case Forward
  then show ?thesis using forward_ok [OF assms(1)] by auto
next
  case Tick
  then show ?thesis using display_next_word_ok [OF assms(1)] by auto
next
  case Escape
  then show ?thesis using assms(1)
    by (simp add: on_escape_def toggle_fullscreen_def pause_reading_ok) (simp add: state_ok_def)
next
  case Back
  then show ?thesis using stop_reading_ok [OF assms(1)]
    by (simp add: show_input_view_def Let_def toggle_fullscreen_def) (simp add: state_ok_def)
next
  case Fullscreen
  then show ?thesis using assms(1) by (simp add: toggle_fullscreen_def state_ok_def)
next
  case (Wpm_slider v)
  then show ?thesis using assms by (simp add: on_wpm_changed_def state_ok_def)
next
  case (Reading_wpm_slider v)
  have ok: "state_ok (s\<lparr>wpm := v\<rparr>)" using assms Reading_wpm_slider by (simp add: state_ok_def)
  have "update_time_estimate (s\<lparr>wpm := v\<rparr>) = Inr (s\<lparr>wpm := v\<rparr>)"
    using state_ok_nonzero [OF ok] by (intro update_time_estimate_Inr) auto
  then show ?thesis using ok Reading_wpm_slider by (simp add: on_reading_wpm_changed_def)
next
  case Increase_wpm
  then show ?thesis using assms(1)
    by (simp add: increase_wpm_def state_ok_def Let_def MIN_WPM_def MAX_WPM_def WPM_STEP_def)
next
  case Decrease_wpm
  then show ?thesis using assms(1)
    by (simp add: decrease_wpm_def state_ok_def Let_def MIN_WPM_def MAX_WPM_def WPM_STEP_def)
next
  case (Wpf_combo n)
  then show ?thesis using assms by (simp add: on_wpf_changed_def state_ok_def)
qed

lemma init_app_ok: "state_ok init_app"
  by (simp add: state_ok_def init_app_def DEFAULT_WPM_def MIN_WPM_def MAX_WPM_def
      DEFAULT_WORDS_PER_FLASH_def MAX_WORDS_PER_FLASH_def)

lemma reachable_ok: "reachable s \<Longrightarrow> state_ok s"
proof (induction rule: reachable.induct)
  case reachable_init
  show ?case by (rule init_app_ok)
next
  case (reachable_step s e s')
  from handle_ok [OF reachable_step.IH reachable_step.hyps(2)] reachable_step.hyps(3)
  show ?case by auto
qed

lemma reachable_run: "reachable s \<Longrightarrow> run es s = Inr s' \<Longrightarrow> reachable s'"
proof (induction es arbitrary: s)
  case Nil
  then show ?case by simp
next
  case (Cons e es)
  show ?case
  proof (cases "enabled e s")
    case True
    with Cons.prems(2) obtain t where t: "handle e s = Inr t" "run es t = Inr s'"
      by (auto split: sum.splits)
    from Cons.prems(1) True t(1) have "reachable t" by (rule reachable_step)
    then show ?thesis using t(2) by (rule Cons.IH)
  next
    case False
    then show ?thesis using Cons by simp
  qed
qed

lemma reachable_after: "reachable (after es)"
proof (cases "run es init_app")
  case (Inl x)
  then show ?thesis by (simp add: after_def reachable_init)
next
  case (Inr s)
  from reachable_run [OF reachable_init Inr] show ?thesis using Inr by (simp add: after_def)
qed

lemma flash_tokens_at_start:
  assumes "current_index s = 0" "tokens s \<noteq> []" "1 \<le> words_per_flash s"
  shows "flash_tokens_at s = take (nat (words_per_flash s)) (tokens s)"
proof -
  have "flash_tokens_at s =
      take (nat (min (words_per_flash s) (int (length (tokens s)) - current_index s)))
        (drop (nat (current_index s)) (tokens s))"
    using assms by (intro flash_tokens_at_eq(1)) auto
  also have "\<dots> = take (nat (min (words_per_flash s) (int (length (tokens s))))) (tokens s)"
    using assms(1) by simp
  also have "\<dots> = take (nat (words_per_flash s)) (tokens s)"
    by (cases "words_per_flash s \<le> int (length (tokens s))") (simp_all add: min_def)
  finally show ?thesis .
qed

text \<open>
  Claim C1, amended. In every reachable state \<^verbatim>\<open>stop_reading\<close> stops the timer and resets
  the position to 0, so the timer delivers no further tick. \<^verbatim>\<open>display_next_word\<close> itself
  does not look at the playing flag: called all the same after \<^verbatim>\<open>stop_reading\<close> on a
  non-empty stream, it shows the first flash (the first \<open>words_per_flash\<close> tokens), moves
  the position to \<open>min words_per_flash (length tokens)\<close> and starts the timer with the
  delay of that flash. Called at the end of the stream it leaves the finished state
  (timer stopped, completion message, progress 100), and a further call in that state
  changes nothing.
\<close>

theorem stop_reading_tick:
  assumes "reachable s"
  shows
  "timer (stop_reading s) = None \<and> current_index (stop_reading s) = 0 \<and>
   \<not> is_playing (stop_reading s) \<and> \<not> is_paused (stop_reading s) \<and>
   \<not> enabled Tick (stop_reading s) \<and>
   (tokens s \<noteq> [] \<longrightarrow>
      (\<exists>s'. display_next_word (stop_reading s) = Inr s' \<and>
            current_index s' = min (words_per_flash s) (int (length (tokens s))) \<and>
            orp_display s' = flash_display (map word (take (nat (words_per_flash s)) (tokens s))) \<and>
            timer s' = Some (py_int (flash_delay (wpm s) (words_per_flash s)
                 (Max (set (map delay_multiplier (take (nat (words_per_flash s)) (tokens s))))))))) \<and>
   (int (length (tokens s)) \<le> current_index s \<longrightarrow>
      (\<exists>s'. display_next_word s = Inr s' \<and> display_next_word s' = Inr s' \<and>
            timer s' = None \<and> \<not> is_playing s' \<and> current_index s' = current_index s \<and>
            orp_display s' = display_message_done \<and> progress_bar s' = 100))"
proof (intro conjI impI)
  show "timer (stop_reading s) = None" "current_index (stop_reading s) = 0"
    "\<not> is_playing (stop_reading s)" "\<not> is_paused (stop_reading s)"
    "\<not> enabled Tick (stop_reading s)"
    by (simp_all add: stop_reading_fields)
next
  assume a: "tokens s \<noteq> []"
  have ok: "state_ok s" using assms by (rule reachable_ok)
  let ?t = "stop_reading s"
  have h: "0 \<le> current_index ?t" "current_index ?t < int (length (tokens ?t))"
    "1 \<le> words_per_flash ?t" "wpm ?t \<noteq> 0"
    using a ok state_ok_nonzero [OF ok] by (simp_all add: stop_reading_fields state_ok_def)
  have f: "flash_tokens_at ?t = take (nat (words_per_flash s)) (tokens s)"
    using flash_tokens_at_start [of ?t] a h(3) by (simp add: stop_reading_fields)
  show "\<exists>s'. display_next_word (stop_reading s) = Inr s' \<and>
            current_index s' = min (words_per_flash s) (int (length (tokens s))) \<and>
            orp_display s' = flash_display (map word (take (nat (words_per_flash s)) (tokens s))) \<and>
            timer s' = Some (py_int (flash_delay (wpm s) (words_per_flash s)
                 (Max (set (map delay_multiplier (take (nat (words_per_flash s)) (tokens s)))))))"
    unfolding display_next_word_step [OF h] f
    by (simp add: stop_reading_fields del: set_map)
next
  assume a: "int (length (tokens s)) \<le> current_index s"
  let ?f = "progress_bar_setValue 100
            (s\<lparr>timer := None, is_playing := False, orp_display := display_message_done\<rparr>)"
  have 1: "display_next_word s = Inr ?f" using a by (rule display_next_word_finish)
  have "int (length (tokens ?f)) \<le> current_index ?f" using a by simp
  then have "display_next_word ?f = Inr (progress_bar_setValue 100
            (?f\<lparr>timer := None, is_playing := False, orp_display := display_message_done\<rparr>))"
    by (rule display_next_word_finish)
  also have "progress_bar_setValue 100
            (?f\<lparr>timer := None, is_playing := False, orp_display := display_message_done\<rparr>) = ?f"
    by (simp add: progress_bar_setValue_def)
  finally have 2: "display_next_word ?f = Inr ?f" .
  have 3: "progress_bar ?f = 100" by (simp add: progress_bar_setValue_def)
  show "\<exists>s'. display_next_word s = Inr s' \<and> display_next_word s' = Inr s' \<and>
            timer s' = None \<and> \<not> is_playing s' \<and> current_index s' = current_index s \<and>
            orp_display s' = display_message_done \<and> progress_bar s' = 100"
    using 1 2 3 by (intro exI [of _ ?f]) simp
qed

text \<open>The theorem at the state left by starting the one-word text "it".\<close>

theorem stop_reading_tick_witness:
  "reachable (after [Start ''it''])  \<and> tokens (after [Start ''it'']) \<noteq> [] \<and>
   int (length (tokens (after [Start ''it'']))) \<le> current_index (after [Start ''it'']) \<and>
   (\<exists>s'. display_next_word (stop_reading (after [Start ''it''])) = Inr s' \<and> current_index s' = 1 \<and>
         orp_display s' = \<lparr>left_label = ''i'', orp_label = Chars ''t'', right_label = ''''\<rparr> \<and>
         timer s' = Some 200) \<and>
   (\<exists>s'. display_next_word (after [Start ''it'']) = Inr s' \<and> display_next_word s' = Inr s' \<and>
         timer s' = None \<and> \<not> is_playing s' \<and> current_index s' = 1 \<and>
         orp_display s' = display_message_done \<and> progress_bar s' = 100)"
proof -
  have a: "tokens (after [Start ''it'']) \<noteq> []" by code_simp
  have b: "words_per_flash (after [Start ''it'']) = 1" by code_simp
  have c: "wpm (after [Start ''it'']) = 300" by code_simp
  have d: "int (length (tokens (after [Start ''it'']))) = 1" by code_simp
  have e: "current_index (after [Start ''it'']) = 1" by code_simp
  have f: "flash_display (map word (take (nat 1) (tokens (after [Start ''it''])))) =
      \<lparr>left_label = ''i'', orp_label = Chars ''t'', right_label = ''''\<rparr>" by code_simp
  have g: "py_int (flash_delay 300 1
      (Max (set (map delay_multiplier (take (nat 1) (tokens (after [Start ''it'']))))))) = 200"
    by code_simp
  show ?thesis
    using stop_reading_tick [OF reachable_after [of "[Start ''it'']"]]
      reachable_after [of "[Start ''it'']"] a b c d e f g
    by simp
qed

text \<open>
  Claim C1 as stated fails: the text "a b c" is started and then stopped; a tick
  delivered after that shows "a", moves the position from 0 to 1 and starts the timer
  with 200 ms.
\<close>

theorem stale_tick_counterexample:
  "is_playing (after [Start ''a b c'']) \<and>
   current_index (after [Start ''a b c'', Stop]) = 0 \<and>
   timer (after [Start ''a b c'', Stop]) = None \<and>
   \<not> is_playing (after [Start ''a b c'', Stop]) \<and>
   orp_display (after [Start ''a b c'', Stop]) = clear \<and>
   map_sum id current_index (display_next_word (after [Start ''a b c'', Stop])) = Inr 1 \<and>
   map_sum id timer (display_next_word (after [Start ''a b c'', Stop])) = Inr (Some 200) \<and>
   map_sum id orp_display (display_next_word (after [Start ''a b c'', Stop])) =
     Inr \<lparr>left_label = '''', orp_label = Chars ''a'', right_label = ''''\<rparr>"
  by code_simp

subsection \<open>Invariant of the reachable states\<close>

lemma reachable_handle:
  "reachable s \<Longrightarrow> enabled e s \<Longrightarrow> \<exists>s'. handle e s = Inr s' \<and> reachable s'"
proof -
  assume r: "reachable s" and e: "enabled e s"
  from handle_ok [OF reachable_ok [OF r] e] obtain s' where s': "handle e s = Inr s'" by blast
  from r e s' have "reachable s'" by (rule reachable_step)
  with s' show ?thesis by blast
qed

text \<open>
  Claim C5. In every state reachable from the initial state by the events of the user
  interface and of the timer (start, play or pause, stop, rewind, forward, tick,
  escape, back, the speed sliders and keys, the batch width), the position lies
  between 0 and the length of the stream, the speed between 100 and 1000 and the
  batch width between 1 and 5.
\<close>

theorem reachable_invariant:
  "reachable s \<Longrightarrow>
     0 \<le> current_index s \<and> current_index s \<le> int (length (tokens s)) \<and>
     100 \<le> wpm s \<and> wpm s \<le> 1000 \<and> 1 \<le> words_per_flash s \<and> words_per_flash s \<le> 5"
proof -
  assume "reachable s"
  then have "state_ok s" by (rule reachable_ok)
  then show ?thesis by (simp add: state_ok_def MIN_WPM_def MAX_WPM_def MAX_WORDS_PER_FLASH_def)
qed

text \<open>
  The theorem at two reachable states that meet the bounds: the position at the end
  of a seven-word stream with speed 1000 and batch width 5, and the position 0 with
  speed 100 and batch width 1.
\<close>

theorem reachable_invariant_witness:
  "reachable (after [Wpf_combo 5, Wpm_slider 990, Start ''a b c d e f g'', Increase_wpm, Forward]) \<and>
   0 \<le> current_index (after [Wpf_combo 5, Wpm_slider 990, Start ''a b c d e f g'', Increase_wpm, Forward]) \<and> current_index (after [Wpf_combo 5, Wpm_slider 990, Start ''a b c d e f g'', Increase_wpm, Forward]) \<le> int (length (tokens (after [Wpf_combo 5, Wpm_slider 990, Start ''a b c d e f g'', Increase_wpm, Forward]))) \<and>
   100 \<le> wpm (after [Wpf_combo 5, Wpm_slider 990, Start ''a b c d e f g'', Increase_wpm, Forward]) \<and> wpm (after [Wpf_combo 5, Wpm_slider 990, Start ''a b c d e f g'', Increase_wpm, Forward]) \<le> 1000 \<and>
   1 \<le> words_per_flash (after [Wpf_combo 5, Wpm_slider 990, Start ''a b c d e f g'', Increase_wpm, Forward]) \<and> words_per_flash (after [Wpf_combo 5, Wpm_slider 990, Start ''a b c d e f g'', Increase_wpm, Forward]) \<le> 5 \<and>
   current_index (after [Wpf_combo 5, Wpm_slider 990, Start ''a b c d e f g'', Increase_wpm, Forward]) = 7 \<and> length (tokens (after [Wpf_combo 5, Wpm_slider 990, Start ''a b c d e f g'', Increase_wpm, Forward])) = 7 \<and> wpm (after [Wpf_combo 5, Wpm_slider 990, Start ''a b c d e f g'', Increase_wpm, Forward]) = 1000 \<and>
   words_per_flash (after [Wpf_combo 5, Wpm_slider 990, Start ''a b c d e f g'', Increase_wpm, Forward]) = 5 \<and>
   reachable (after [Wpm_slider 110, Start ''a b c d e f g'', Decrease_wpm, Toggle, Rewind]) \<and>
   0 \<le> current_index (after [Wpm_slider 110, Start ''a b c d e f g'', Decrease_wpm, Toggle, Rewind]) \<and> current_index (after [Wpm_slider 110, Start ''a b c d e f g'', Decrease_wpm, Toggle, Rewind]) \<le> int (length (tokens (after [Wpm_slider 110, Start ''a b c d e f g'', Decrease_wpm, Toggle, Rewind]))) \<and>
   100 \<le> wpm (after [Wpm_slider 110, Start ''a b c d e f g'', Decrease_wpm, Toggle, Rewind]) \<and> wpm (after [Wpm_slider 110, Start ''a b c d e f g'', Decrease_wpm, Toggle, Rewind]) \<le> 1000 \<and>
   1 \<le> words_per_flash (after [Wpm_slider 110, Start ''a b c d e f g'', Decrease_wpm, Toggle, Rewind]) \<and> words_per_flash (after [Wpm_slider 110, Start ''a b c d e f g'', Decrease_wpm, Toggle, Rewind]) \<le> 5 \<and>
   current_index (after [Wpm_slider 110, Start ''a b c d e f g'', Decrease_wpm, Toggle, Rewind]) = 0 \<and> wpm (after [Wpm_slider 110, Start ''a b c d e f g'', Decrease_wpm, Toggle, Rewind]) = 100 \<and> words_per_flash (after [Wpm_slider 110, Start ''a b c d e f g'', Decrease_wpm, Toggle, Rewind]) = 1"
proof -
  have a: "current_index (after [Wpf_combo 5, Wpm_slider 990, Start ''a b c d e f g'', Increase_wpm, Forward]) = 7" by code_simp
  have b: "length (tokens (after [Wpf_combo 5, Wpm_slider 990, Start ''a b c d e f g'', Increase_wpm, Forward])) = 7" by code_simp
  have c: "wpm (after [Wpf_combo 5, Wpm_slider 990, Start ''a b c d e f g'', Increase_wpm, Forward]) = 1000" by code_simp
  have d: "words_per_flash (after [Wpf_combo 5, Wpm_slider 990, Start ''a b c d e f g'', Increase_wpm, Forward]) = 5" by code_simp
  have e: "current_index (after [Wpm_slider 110, Start ''a b c d e f g'', Decrease_wpm, Toggle, Rewind]) = 0" by code_simp
  have f: "wpm (after [Wpm_slider 110, Start ''a b c d e f g'', Decrease_wpm, Toggle, Rewind]) = 100" by code_simp
  have g: "words_per_flash (after [Wpm_slider 110, Start ''a b c d e f g'', Decrease_wpm, Toggle, Rewind]) = 1" by code_simp
  have r1: "reachable (after [Wpf_combo 5, Wpm_slider 990, Start ''a b c d e f g'', Increase_wpm, Forward])" by (rule reachable_after)
  have r2: "reachable (after [Wpm_slider 110, Start ''a b c d e f g'', Decrease_wpm, Toggle, Rewind])" by (rule reachable_after)
  show ?thesis
    using reachable_invariant [OF r1] reachable_invariant [OF r2] r1 r2 a b c d e f g
    by simp
qed

subsection \<open>Starting a session\<close>

lemma display_next_word_tokens: "display_next_word s = Inr s' \<Longrightarrow> tokens s' = tokens s"
  by (auto simp: display_next_word_def Let_def dest!: update_time_estimate_InrD
      split: if_splits sum.splits)

lemma toggle_play_pause_tokens: "toggle_play_pause s = Inr s' \<Longrightarrow> tokens s' = tokens s"
  by (auto simp: toggle_play_pause_def pause_reading_def resume_reading_def
      dest!: display_next_word_tokens split: if_splits)

text \<open>
  Claim C8, amended. \<^verbatim>\<open>start_reading\<close> with an empty or whitespace-only text shows the
  "No Text" warning and leaves the whole state as it is: a fresh application stays
  without a stream, but the stream of an earlier session is kept. A text that is not
  blank always has at least one token, so the "No Words" warning is never shown; and
  when \<^verbatim>\<open>start_reading\<close> starts a session, the stream is the non-empty token list of
  the trimmed text.
\<close>

theorem start_reading_blank:
  "(py_strip text = [] \<longrightarrow> start_reading text s = Inr (Some No_Text, s)) \<and>
   (py_strip text \<noteq> [] \<longrightarrow> tokenize_text (py_strip text) \<noteq> []) \<and>
   (\<forall>s'. start_reading text s \<noteq> Inr (Some No_Words, s')) \<and>
   (\<forall>s'. start_reading text s = Inr (None, s') \<longrightarrow>
      py_strip text \<noteq> [] \<and> tokens s' = tokenize_text (py_strip text) \<and> tokens s' \<noteq> [])"
proof (intro conjI impI allI)
  show "start_reading text s = Inr (Some No_Text, s)" if "py_strip text = []"
    using that by (simp add: start_reading_def)
  show ne: "tokenize_text (py_strip text) \<noteq> []" if "py_strip text \<noteq> []"
    using that by (rule tokenize_text_nonblank)
  show "start_reading text s \<noteq> Inr (Some No_Words, s')" for s'
    using ne by (auto simp: start_reading_def Let_def split: sum.splits)
  fix s'
  assume a: "start_reading text s = Inr (None, s')"
  then show nb: "py_strip text \<noteq> []" by (auto simp: start_reading_def)
  from a nb ne show "tokens s' = tokenize_text (py_strip text)"
    by (auto simp: start_reading_def Let_def split: sum.splits
        dest!: update_time_estimate_InrD toggle_play_pause_tokens)
  then show "tokens s' \<noteq> []" using ne nb by simp
qed

text \<open>
  The theorem at a blank text, after an earlier session and in the initial state, and
  at two texts that are not blank.
\<close>

theorem start_reading_blank_witness:
  "py_strip [CHR '' '', CHR 0x0A] = [] \<and>
   start_reading [CHR '' '', CHR 0x0A] (after [Start ''a b'', Back]) =
     Inr (Some No_Text, after [Start ''a b'', Back]) \<and>
   start_reading [CHR '' '', CHR 0x0A] init_app = Inr (Some No_Text, init_app) \<and>
   py_strip ''?'' \<noteq> [] \<and> tokenize_text (py_strip ''?'') \<noteq> [] \<and>
   (\<exists>s'. start_reading '' a b '' init_app = Inr (None, s') \<and>
      map word (tokens s') = [''a'', ''b''])"
proof -
  have a: "py_strip [CHR '' '', CHR 0x0A] = []" by code_simp
  have b: "py_strip ''?'' \<noteq> []" by code_simp
  have d: "map word (tokenize_text (py_strip '' a b '')) = [''a'', ''b'']" by code_simp
  have "py_strip '' a b '' \<noteq> []" by code_simp
  with start_reading_cases [OF init_app_ok, of "'' a b ''"]
  obtain s' where s': "start_reading '' a b '' init_app = Inr (None, s')" by auto
  with start_reading_blank [of "'' a b ''" init_app]
  have "tokens s' = tokenize_text (py_strip '' a b '')" by blast
  with s' d have c: "\<exists>s'. start_reading '' a b '' init_app = Inr (None, s') \<and>
      map word (tokens s') = [''a'', ''b'']" by auto
  show ?thesis
    using start_reading_blank [of "[CHR '' '', CHR 0x0A]" "after [Start ''a b'', Back]"]
      start_reading_blank [of "[CHR '' '', CHR 0x0A]" init_app]
      start_reading_blank [of "''?''" init_app] a b c
    by blast
qed

text \<open>
  Claim C8 as stated fails: the text "a b" is started and the input view is opened
  again; \<^verbatim>\<open>start_reading\<close> with a blank text then shows the warning and the stream of
  the earlier session, "a" and "b", is still there.
\<close>

theorem start_reading_blank_counterexample:
  "map_sum id fst (start_reading [CHR '' '', CHR 0x0A] (after [Start ''a b'', Back])) =
     Inr (Some No_Text) \<and>
   map_sum id (\<lambda>r. map word (tokens (snd r)))
     (start_reading [CHR '' '', CHR 0x0A] (after [Start ''a b'', Back])) = Inr [''a'', ''b''] \<and>
   map word (tokens (after [Start ''a b'', Back])) = [''a'', ''b''] \<and>
   \<not> is_playing (after [Start ''a b'', Back]) \<and> \<not> is_paused (after [Start ''a b'', Back])"
  by code_simp

subsection \<open>Seeking\<close>

lemma seek_paused:
  assumes "\<not> is_playing s" "words_per_flash s \<noteq> 0" "wpm s \<noteq> 0"
  shows "(case update_time_estimate (update_progress (s\<lparr>current_index := i\<rparr>)) of
             Inl e \<Rightarrow> Inl e
           | Inr s2 \<Rightarrow>
               if is_playing s2 then display_next_word (s2\<lparr>timer := None\<rparr>)
               else Inr (show_current_word s2))
         = Inr (show_current_word (update_progress (s\<lparr>current_index := i\<rparr>)))"
proof -
  have "update_time_estimate (update_progress (s\<lparr>current_index := i\<rparr>))
      = Inr (update_progress (s\<lparr>current_index := i\<rparr>))"
    using assms by (intro update_time_estimate_Inr) auto
  then show ?thesis using assms(1) by simp
qed

lemma forward_paused:
  assumes "\<not> is_playing s" "tokens s \<noteq> []" "words_per_flash s \<noteq> 0" "wpm s \<noteq> 0"
  shows "forward s = Inr (show_current_word (update_progress (s\<lparr>current_index :=
           min (int (length (tokens s)) - 1)
             (current_index s + max 10 (int (length (tokens s)) div 20) * words_per_flash s)\<rparr>)))"
  using assms(2) by (simp add: forward_def Let_def seek_paused [OF assms(1,3,4)] FORWARD_WORDS_def)

lemma rewind_paused:
  assumes "\<not> is_playing s" "tokens s \<noteq> []" "words_per_flash s \<noteq> 0" "wpm s \<noteq> 0"
  shows "rewind s = Inr (show_current_word (update_progress (s\<lparr>current_index :=
           max 0 (current_index s - max 10 (int (length (tokens s)) div 20) * words_per_flash s)\<rparr>)))"
  using assms(2) by (simp add: rewind_def Let_def seek_paused [OF assms(1,3,4)] REWIND_WORDS_def)


lemma display_next_word_index:
  assumes "state_ok s" "current_index s < int (length (tokens s))"
  shows "\<exists>s'. display_next_word s = Inr s' \<and>
           current_index s' = min (current_index s + words_per_flash s) (int (length (tokens s))) \<and>
           is_playing s' = is_playing s \<and> tokens s' = tokens s \<and>
           words_per_flash s' = words_per_flash s \<and> wpm s' = wpm s \<and> state_ok s'"
proof -
  have h: "0 \<le> current_index s" "current_index s < int (length (tokens s))"
    "1 \<le> words_per_flash s" "wpm s \<noteq> 0"
    using assms by (auto simp: state_ok_def MIN_WPM_def)
  show ?thesis
    unfolding display_next_word_step [OF h]
    using assms h by (simp add: state_ok_def)
qed

lemma seek_playing:
  assumes "state_ok s" "is_playing s" "0 \<le> i" "i < int (length (tokens s))"
  shows "\<exists>s'. (case update_time_estimate (update_progress (s\<lparr>current_index := i\<rparr>)) of
             Inl e \<Rightarrow> Inl e
           | Inr s2 \<Rightarrow>
               if is_playing s2 then display_next_word (s2\<lparr>timer := None\<rparr>)
               else Inr (show_current_word s2)) = Inr s' \<and>
           current_index s' = min (i + words_per_flash s) (int (length (tokens s))) \<and>
           is_playing s' \<and> tokens s' = tokens s \<and>
           words_per_flash s' = words_per_flash s \<and> wpm s' = wpm s \<and> state_ok s'"
proof -
  let ?s1 = "update_progress (s\<lparr>current_index := i\<rparr>)"
  have ok: "state_ok ?s1" using assms by (simp add: state_ok_def)
  have u: "update_time_estimate ?s1 = Inr ?s1"
    using state_ok_nonzero [OF ok] by (intro update_time_estimate_Inr) auto
  have ok': "state_ok (?s1\<lparr>timer := None\<rparr>)" using ok by (simp add: state_ok_def)
  have lt: "current_index (?s1\<lparr>timer := None\<rparr>) < int (length (tokens (?s1\<lparr>timer := None\<rparr>)))"
    using assms(4) by simp
  from display_next_word_index [OF ok' lt] show ?thesis
    unfolding u using assms(2) by simp
qed

lemma seek_amount_bounds:
  assumes "state_ok s"
  shows "words_per_flash s \<le> max 10 (int (length (tokens s)) div 20) * words_per_flash s"
    and "0 < max 10 (int (length (tokens s)) div 20) * words_per_flash s"
proof -
  have w: "1 \<le> words_per_flash s" using assms by (simp add: state_ok_def)
  have m: "1 \<le> max 10 (int (length (tokens s)) div 20)" by simp
  from mult_right_mono [OF m, of "words_per_flash s"] w
  show "words_per_flash s \<le> max 10 (int (length (tokens s)) div 20) * words_per_flash s"
    by simp
  with w show "0 < max 10 (int (length (tokens s)) div 20) * words_per_flash s" by linarith
qed

lemma round_trip_arith:
  fixes c w d n :: int
  assumes "0 \<le> c" "1 \<le> w" "w \<le> d" "c + d + w \<le> n"
  shows "min (n - 1) (c + d) = c + d" "min (c + d + w) n = c + d + w"
    "max 0 (c + d + w - d) = c + w" "min (c + w + w) n = c + 2 * w"
    "0 \<le> c + d" "c + d < n" "0 \<le> c + w" "c + w < n"
  using assms by auto

text \<open>
  Claim C7, amended. \<^verbatim>\<open>forward\<close> and \<^verbatim>\<open>rewind\<close> move by the same amount
  \<open>max 10 (length tokens div 20) * words_per_flash\<close>. In a reachable state with a
  non-empty stream that is not playing, \<^verbatim>\<open>forward\<close> followed by \<^verbatim>\<open>rewind\<close> returns to
  the position where it began, provided that \<^verbatim>\<open>forward\<close> stays below the last index. While
  playing, each of the two shows the flash at the new position at once and moves on by
  \<open>words_per_flash\<close>, so the round trip ends \<open>2 * words_per_flash\<close> after the position
  where it began (provided that the position after \<^verbatim>\<open>forward\<close> stays within the stream).
\<close>

theorem forward_rewind_round_trip:
  assumes "reachable s" and "tokens s \<noteq> []"
  shows "(\<not> is_playing s \<and>
          current_index s + max 10 (int (length (tokens s)) div 20) * words_per_flash s
            \<le> int (length (tokens s)) - 1 \<longrightarrow>
          (\<exists>s1 s2. forward s = Inr s1 \<and> rewind s1 = Inr s2 \<and>
             current_index s1 =
               current_index s + max 10 (int (length (tokens s)) div 20) * words_per_flash s \<and>
             current_index s2 = current_index s)) \<and>
         (is_playing s \<and>
          current_index s + max 10 (int (length (tokens s)) div 20) * words_per_flash s
            + words_per_flash s \<le> int (length (tokens s)) \<longrightarrow>
          (\<exists>s1 s2. forward s = Inr s1 \<and> rewind s1 = Inr s2 \<and>
             current_index s1 =
               current_index s + max 10 (int (length (tokens s)) div 20) * words_per_flash s
                 + words_per_flash s \<and>
             current_index s2 = current_index s + 2 * words_per_flash s))"
proof (intro conjI impI)
  let ?d = "max 10 (int (length (tokens s)) div 20) * words_per_flash s"
  have ok: "state_ok s" using assms(1) by (rule reachable_ok)
  have nz: "words_per_flash s \<noteq> 0" "wpm s \<noteq> 0" using state_ok_nonzero [OF ok] by simp_all
  have i0: "0 \<le> current_index s" using ok by (simp add: state_ok_def)
  {
    assume a: "\<not> is_playing s \<and> current_index s + ?d \<le> int (length (tokens s)) - 1"
    let ?s1 = "show_current_word (update_progress (s\<lparr>current_index :=
             min (int (length (tokens s)) - 1) (current_index s + ?d)\<rparr>))"
    let ?s2 = "show_current_word (update_progress (?s1\<lparr>current_index :=
             max 0 (current_index ?s1 - max 10 (int (length (tokens ?s1)) div 20) * words_per_flash ?s1)\<rparr>))"
    have f: "forward s = Inr ?s1" using a assms(2) nz by (intro forward_paused) simp_all
    have i1: "current_index ?s1 = current_index s + ?d" using a by simp
    have "\<not> is_playing ?s1" "tokens ?s1 \<noteq> []" "words_per_flash ?s1 \<noteq> 0" "wpm ?s1 \<noteq> 0"
      using a assms(2) nz by simp_all
    then have r: "rewind ?s1 = Inr ?s2" by (rule rewind_paused)
    have i2: "current_index ?s2 = current_index s" using a i0 by simp
    from f r i1 i2 show "\<exists>s1 s2. forward s = Inr s1 \<and> rewind s1 = Inr s2 \<and>
             current_index s1 = current_index s + ?d \<and> current_index s2 = current_index s"
      by blast
  }
  {
    assume a: "is_playing s \<and> current_index s + ?d + words_per_flash s \<le> int (length (tokens s))"
    have w: "1 \<le> words_per_flash s" using ok by (simp add: state_ok_def)
    have dw: "words_per_flash s \<le> ?d" using seek_amount_bounds(1) [OF ok] .
    have le: "current_index s + ?d + words_per_flash s \<le> int (length (tokens s))"
      using a by (rule conjunct2)
    note ar = round_trip_arith [OF i0 w dw le]
    let ?i = "min (int (length (tokens s)) - 1) (current_index s + ?d)"
    have i: "?i = current_index s + ?d" by (rule ar(1))
    have "0 \<le> ?i" "?i < int (length (tokens s))" unfolding i by (rule ar(5), rule ar(6))
    from seek_playing [OF ok _ this] a
    obtain s1 where s1: "forward s = Inr s1"
      "current_index s1 = min (?i + words_per_flash s) (int (length (tokens s)))"
      "is_playing s1" "tokens s1 = tokens s" "words_per_flash s1 = words_per_flash s" "state_ok s1"
      using assms(2) by (auto simp: forward_def Let_def FORWARD_WORDS_def)
    have c1: "current_index s1 = current_index s + ?d + words_per_flash s"
      using s1(2) unfolding i by (simp only: ar(2))
    let ?j = "max 0 (current_index s1 - max 10 (int (length (tokens s1)) div 20) * words_per_flash s1)"
    have j: "?j = current_index s + words_per_flash s"
      by (simp only: s1(4) s1(5) c1 ar(3))
    have "0 \<le> ?j" unfolding j by (rule ar(7))
    moreover have "?j < int (length (tokens s1))" unfolding j unfolding s1(4) by (rule ar(8))
    ultimately obtain s2 where s2: "rewind s1 = Inr s2"
      "current_index s2 = min (?j + words_per_flash s1) (int (length (tokens s1)))"
      using seek_playing [OF s1(6) s1(3), of ?j] assms(2) s1(4)
      by (auto simp: rewind_def Let_def REWIND_WORDS_def)
    have c2: "current_index s2 = current_index s + 2 * words_per_flash s"
      using s2(2) unfolding j unfolding s1(4) s1(5) by (simp only: ar(4))
    from s1(1) s2(1) c1 c2 show "\<exists>s1 s2. forward s = Inr s1 \<and> rewind s1 = Inr s2 \<and>
             current_index s1 = current_index s + ?d + words_per_flash s \<and>
             current_index s2 = current_index s + 2 * words_per_flash s"
      by blast
  }
qed

text \<open>
  The theorem at a stream of fifteen words, paused at position 1 and playing at
  position 1.
\<close>

theorem forward_rewind_round_trip_witness:
  "reachable (after [Start (concat (replicate 15 ''a '')), Toggle]) \<and> \<not> is_playing (after [Start (concat (replicate 15 ''a '')), Toggle]) \<and>
   current_index (after [Start (concat (replicate 15 ''a '')), Toggle]) = 1 \<and>
   length (tokens (after [Start (concat (replicate 15 ''a '')), Toggle])) = 15 \<and>
   (\<exists>s1 s2. forward (after [Start (concat (replicate 15 ''a '')), Toggle]) = Inr s1 \<and>
      rewind s1 = Inr s2 \<and> current_index s1 = 11 \<and> current_index s2 = 1) \<and>
   reachable (after [Start (concat (replicate 15 ''a ''))]) \<and> is_playing (after [Start (concat (replicate 15 ''a ''))]) \<and>
   current_index (after [Start (concat (replicate 15 ''a ''))]) = 1 \<and>
   (\<exists>s1 s2. forward (after [Start (concat (replicate 15 ''a ''))]) = Inr s1 \<and>
      rewind s1 = Inr s2 \<and> current_index s1 = 12 \<and> current_index s2 = 3)"
proof -
  have a: "\<not> is_playing (after [Start (concat (replicate 15 ''a '')), Toggle])" by code_simp
  have b: "current_index (after [Start (concat (replicate 15 ''a '')), Toggle]) = 1" by code_simp
  have c: "length (tokens (after [Start (concat (replicate 15 ''a '')), Toggle])) = 15" by code_simp
  have e: "words_per_flash (after [Start (concat (replicate 15 ''a '')), Toggle]) = 1" by code_simp
  have a': "is_playing (after [Start (concat (replicate 15 ''a ''))])" by code_simp
  have b': "current_index (after [Start (concat (replicate 15 ''a ''))]) = 1" by code_simp
  have c': "length (tokens (after [Start (concat (replicate 15 ''a ''))])) = 15" by code_simp
  have e': "words_per_flash (after [Start (concat (replicate 15 ''a ''))]) = 1" by code_simp
  have r: "reachable (after [Start (concat (replicate 15 ''a '')), Toggle])" by (rule reachable_after)
  have r': "reachable (after [Start (concat (replicate 15 ''a ''))])" by (rule reachable_after)
  have n: "tokens (after [Start (concat (replicate 15 ''a '')), Toggle]) \<noteq> []" using c by auto
  have n': "tokens (after [Start (concat (replicate 15 ''a ''))]) \<noteq> []" using c' by auto
  show ?thesis
    using forward_rewind_round_trip [OF r n] forward_rewind_round_trip [OF r' n']
      r r' a b c e a' b' c' e'
    by simp
qed

text \<open>
  Claim C7 as stated fails while playing: from position 1 of fifteen words, no clamp
  is met, \<^verbatim>\<open>forward\<close> leads to position 12 and \<^verbatim>\<open>rewind\<close> after it to position 3.
\<close>

theorem forward_rewind_counterexample:
  "is_playing (after [Start (concat (replicate 15 ''a ''))]) \<and>
   length (tokens (after [Start (concat (replicate 15 ''a ''))])) = 15 \<and>
   current_index (after [Start (concat (replicate 15 ''a ''))]) = 1 \<and>
   current_index (after [Start (concat (replicate 15 ''a '')), Forward]) = 12 \<and>
   current_index (after [Start (concat (replicate 15 ''a '')), Forward, Rewind]) = 3"
  by code_simp

subsection \<open>Delay of the next tick\<close>

text \<open>
  Claim C4, amended. In a reachable state whose position is inside the stream,
  \<^verbatim>\<open>display_next_word\<close> shows the next \<open>words_per_flash\<close> tokens (fewer at the end of the
  stream, never none) and starts the timer with the whole number of milliseconds
  \<open>py_int d\<close>, where \<open>d\<close> is \<open>60000 / wpm\<close> times the largest multiplier of these tokens,
  times 1.2 when \<open>words_per_flash > 1\<close>, computed in floating point: every operation
  rounds to the nearest double, and \<open>py_int\<close> drops the fraction.
\<close>

theorem display_next_word_delay:
  assumes "reachable s" and "current_index s < int (length (tokens s))"
  shows "\<exists>s'. display_next_word s = Inr s' \<and>
           timer s' = Some (py_int (flash_delay (wpm s) (words_per_flash s)
                        (Max (set (map delay_multiplier
                           (take (nat (words_per_flash s)) (drop (nat (current_index s)) (tokens s)))))))) \<and>
           take (nat (words_per_flash s)) (drop (nat (current_index s)) (tokens s)) \<noteq> []"
proof -
  have ok: "state_ok s" using assms(1) by (rule reachable_ok)
  have h: "0 \<le> current_index s" "current_index s < int (length (tokens s))"
    "1 \<le> words_per_flash s" "wpm s \<noteq> 0"
    using ok assms(2) state_ok_nonzero [OF ok] by (simp_all add: state_ok_def)
  have f: "flash_tokens_at s =
      take (nat (min (words_per_flash s) (int (length (tokens s)) - current_index s)))
        (drop (nat (current_index s)) (tokens s))"
    using h(1-3) by (rule flash_tokens_at_eq(1))
  have "take (nat (min (words_per_flash s) (int (length (tokens s)) - current_index s)))
        (drop (nat (current_index s)) (tokens s)) =
      take (nat (words_per_flash s)) (drop (nat (current_index s)) (tokens s))"
    using h(1,2) by (cases "words_per_flash s \<le> int (length (tokens s)) - current_index s")
      (simp_all add: min_def)
  with f have g: "flash_tokens_at s =
      take (nat (words_per_flash s)) (drop (nat (current_index s)) (tokens s))" by simp
  have ne: "flash_tokens_at s \<noteq> []" using h(1-3) by (rule flash_tokens_at_eq(2))
  show ?thesis
    unfolding display_next_word_step [OF h]
    using ne unfolding g by (simp del: set_map)
qed

text \<open>
  The theorem at a playing state with speed 720 and batch width 2 whose next flash is
  "c d", and at a stopped state with speed 700 whose next flash is "a.".
\<close>

theorem display_next_word_delay_witness:
  "reachable (after [Wpm_slider 720, Wpf_combo 2, Start ''a, b c d'']) \<and> current_index (after [Wpm_slider 720, Wpf_combo 2, Start ''a, b c d'']) < int (length (tokens (after [Wpm_slider 720, Wpf_combo 2, Start ''a, b c d'']))) \<and>
   (\<exists>s'. display_next_word (after [Wpm_slider 720, Wpf_combo 2, Start ''a, b c d'']) = Inr s' \<and> timer s' = Some 99) \<and>
   reachable (after [Wpm_slider 700, Start ''a. b'', Stop]) \<and> current_index (after [Wpm_slider 700, Start ''a. b'', Stop]) < int (length (tokens (after [Wpm_slider 700, Start ''a. b'', Stop]))) \<and>
   (\<exists>s'. display_next_word (after [Wpm_slider 700, Start ''a. b'', Stop]) = Inr s' \<and> timer s' = Some 171)"
proof -
  have r: "reachable (after [Wpm_slider 720, Wpf_combo 2, Start ''a, b c d''])" "reachable (after [Wpm_slider 700, Start ''a. b'', Stop])" by (rule reachable_after)+
  have i: "current_index (after [Wpm_slider 720, Wpf_combo 2, Start ''a, b c d'']) < int (length (tokens (after [Wpm_slider 720, Wpf_combo 2, Start ''a, b c d''])))"
    "current_index (after [Wpm_slider 700, Start ''a. b'', Stop]) < int (length (tokens (after [Wpm_slider 700, Start ''a. b'', Stop])))" by code_simp+
  have a: "py_int (flash_delay (wpm (after [Wpm_slider 720, Wpf_combo 2, Start ''a, b c d''])) (words_per_flash (after [Wpm_slider 720, Wpf_combo 2, Start ''a, b c d'']))
      (Max (set (map delay_multiplier
         (take (nat (words_per_flash (after [Wpm_slider 720, Wpf_combo 2, Start ''a, b c d'']))) (drop (nat (current_index (after [Wpm_slider 720, Wpf_combo 2, Start ''a, b c d'']))) (tokens (after [Wpm_slider 720, Wpf_combo 2, Start ''a, b c d''])))))))) = 99"
    by code_simp
  have b: "py_int (flash_delay (wpm (after [Wpm_slider 700, Start ''a. b'', Stop])) (words_per_flash (after [Wpm_slider 700, Start ''a. b'', Stop]))
      (Max (set (map delay_multiplier
         (take (nat (words_per_flash (after [Wpm_slider 700, Start ''a. b'', Stop]))) (drop (nat (current_index (after [Wpm_slider 700, Start ''a. b'', Stop]))) (tokens (after [Wpm_slider 700, Start ''a. b'', Stop])))))))) = 171"
    by code_simp
  from display_next_word_delay [OF r(1) i(1)] a
  have x: "\<exists>s'. display_next_word (after [Wpm_slider 720, Wpf_combo 2, Start ''a, b c d'']) = Inr s' \<and> timer s' = Some 99" by auto
  from display_next_word_delay [OF r(2) i(2)] b
  have y: "\<exists>s'. display_next_word (after [Wpm_slider 700, Start ''a. b'', Stop]) = Inr s' \<and> timer s' = Some 171" by auto
  from r i x y show ?thesis by blast
qed

text \<open>
  Claim C4 as stated fails. At speed 700 the timer of a one-word flash gets 85 ms, and
  60000 / 700 is not 85. At speed 720 and batch width 2 the timer of a flash without
  punctuation gets 99 ms, and 60000 / 720 * 1.0 * 1.2 is 100.
\<close>

theorem display_next_word_delay_counterexample:
  "timer (after [Wpm_slider 700, Start ''a b'']) = Some 85 \<and>
   (60000 / 700 :: rat) * 1 \<noteq> 85 \<and>
   timer (after [Wpm_slider 720, Wpf_combo 2, Start ''a b c'']) = Some 99 \<and>
   (60000 / 720 :: rat) * 1 * (12 / 10) = 100"
  by code_simp

end
